theory Spec2Isabelle
  imports Main "HOL-Library.Word"
begin

unbundle bit_operations_syntax

section \<open>The pawn cache (transposition.c)\<close>

text \<open>
  A pawn entry holds the full 64-bit pawn hash, the passed-pawn bitboard and the two
  score contributions. The table is one heap array of \<open>0x10000\<close> entries; it is the list
  of its slots, and a pointer to a slot is the slot's index. \<open>NULL\<close> is \<open>None\<close>.
  The score fields are plain C \<open>int\<close>s that the functions only copy, so they are \<open>int\<close>.
\<close>

record PawnEntry =
  phash :: "64 word"
  passed :: "64 word"
  mg :: int
  eg :: int

record PawnTable =
  entries :: "PawnEntry list"

text \<open>What \<open>calloc\<close> hands out: every field zero.\<close>

definition zeroPawnEntry :: PawnEntry where
  "zeroPawnEntry = \<lparr>phash = 0, passed = 0, mg = 0, eg = 0\<rparr>"

definition initalizePawnTable :: PawnTable where
  "initalizePawnTable = \<lparr>entries = replicate 0x10000 zeroPawnEntry\<rparr>"

text \<open>\<open>phash >> 48\<close>, the slot index: the top 16 bits of the hash.\<close>

definition pawnSlot :: "64 word \<Rightarrow> nat" where
  "pawnSlot h = unat (drop_bit 48 h)"

definition getPawnEntry :: "PawnTable \<Rightarrow> 64 word \<Rightarrow> nat option" where
  "getPawnEntry ptable h =
     (let pentry = pawnSlot h
      in if phash (entries ptable ! pentry) = h then Some pentry else None)"

definition storePawnEntry :: "PawnTable \<Rightarrow> 64 word \<Rightarrow> 64 word \<Rightarrow> int \<Rightarrow> int \<Rightarrow> PawnTable" where
  "storePawnEntry ptable h p m e =
     (let pentry = pawnSlot h
      in ptable\<lparr>entries := (entries ptable)
           [pentry := \<lparr>phash = h, passed = p, mg = m, eg = e\<rparr>]\<rparr>)"

section \<open>The transposition table (transposition.c)\<close>

text \<open>
  The header that declares the entry, the bucket and the constants is not among the
  sources, so the constants the functions name are taken as parameters: the bounds
  \<open>MAX_DEPTH\<close> and \<open>MATE\<close>, the three node tags, the number of entries of a bucket and
  \<open>sizeof(TransBucket)\<close>. An entry's \<open>hash16\<close> is 16 bits wide (the code fills it from a
  \<open>uint16_t\<close>). The other fields of an entry have fixed widths that the header fixes
  (the buckets are asserted to be 32 bytes) and the code assigns \<open>int\<close>s and the generation
  to them, so each assignment converts: what a field holds after it is assigned a number
  is a parameter too, one conversion for each field. The counters \<open>generation\<close> and \<open>used\<close>
  of the table are unbounded numbers. \<open>calloc\<close> is taken to succeed, and the \<open>assert\<close>s to
  be compiled in.
\<close>

record TransDefs =
  MAX_DEPTH :: int
  MATE :: int
  PVNODE :: int
  CUTNODE :: int
  ALLNODE :: int
  BUCKET_SIZE :: nat
  sizeof_TransBucket :: nat
  asValue :: "int \<Rightarrow> int"
  asDepth :: "int \<Rightarrow> int"
  asAge :: "nat \<Rightarrow> nat"
  asType :: "int \<Rightarrow> int"
  asBestMove :: "int \<Rightarrow> int"

record TransEntry =
  hash16 :: "16 word"
  value' :: int
  depth :: int
  age :: nat
  type :: int
  bestMove :: int

text \<open>
  A bucket is the array of its entries, and the table the heap array of its buckets. A
  pointer to an entry is the pair of the bucket's index and the entry's index.
\<close>

type_synonym TransBucket = "TransEntry list"

record TransTable =
  buckets :: "TransBucket list"
  numBuckets :: "64 word"
  keySize :: nat
  generation :: nat
  used :: nat

text \<open>
  What can stop a call: a failed \<open>assert\<close>, a shift by 64 or more (undefined in C), a
  write through a pointer that is still \<open>NULL\<close>, and, in move generation, \<open>getLSB\<close> of a
  bitboard with no bit set.
\<close>

datatype fault = AssertionFailed | ShiftTooWide | NullPointer | EmptyBitboard

definition zeroTransEntry :: TransEntry where
  "zeroTransEntry = \<lparr>hash16 = 0, value' = 0, depth = 0, age = 0, type = 0, bestMove = 0\<rparr>"

text \<open>
  The sizing loop \<open>for (; 1ull << (keySize + 5) <= megabytes << 20; keySize++);\<close>.
  \<open>megabytes << 20\<close> wraps at 64 bits; \<open>keySize\<close> stays below 64.
\<close>

function keySizeLoop :: "64 word \<Rightarrow> nat \<Rightarrow> fault + nat" where
  "keySizeLoop megabytes keySize' =
     (if 64 \<le> keySize' + 5 then Inl ShiftTooWide
      else if push_bit (keySize' + 5) (1 :: 64 word) \<le> push_bit 20 megabytes
        then keySizeLoop megabytes (keySize' + 1)
        else Inr keySize')"
  by pat_completeness auto
termination
  by (relation "measure (\<lambda>(megabytes, k). 64 - k)") auto

declare keySizeLoop.simps [simp del]

definition initalizeTranspositionTable :: "TransDefs \<Rightarrow> 64 word \<Rightarrow> fault + TransTable" where
  "initalizeTranspositionTable defs megabytes =
     (if sizeof_TransBucket defs \<noteq> 32 then Inl AssertionFailed
      else case keySizeLoop megabytes 16 of
        Inl f \<Rightarrow> Inl f
      | Inr k \<Rightarrow>
          Inr \<lparr>buckets = replicate (2 ^ (k - 1)) (replicate (BUCKET_SIZE defs) zeroTransEntry),
               numBuckets = push_bit (k - 1) 1,
               keySize = k - 1,
               generation = 0,
               used = 0\<rparr>)"

definition updateTranspositionTable :: "TransTable \<Rightarrow> TransTable" where
  "updateTranspositionTable table = table\<lparr>generation := (generation table + 1) mod 64\<rparr>"

text \<open>\<open>hash & (table->numBuckets - 1)\<close> and \<open>hash >> 48\<close>.\<close>

definition bucketIndex :: "TransTable \<Rightarrow> 64 word \<Rightarrow> nat" where
  "bucketIndex table hash = unat (hash AND (numBuckets table - 1))"

definition hashKey :: "64 word \<Rightarrow> 16 word" where
  "hashKey hash = ucast (drop_bit 48 hash)"

text \<open>The probe loop: the first entry whose key matches.\<close>

function probeLoop :: "TransEntry list \<Rightarrow> 16 word \<Rightarrow> nat \<Rightarrow> nat option" where
  "probeLoop entries' h16 i =
     (if i < length entries' then
        (if hash16 (entries' ! i) = h16 then Some i else probeLoop entries' h16 (i + 1))
      else None)"
  by pat_completeness auto
termination
  by (relation "measure (\<lambda>(es, h16, i). length es - i)") auto

declare probeLoop.simps [simp del]

text \<open>
  \<open>getTranspositionEntry\<close> returns the pointer and assigns the current generation to the
  found entry's age. The flag stands for the build switch \<open>TEXEL\<close>.
\<close>

definition getTranspositionEntry ::
  "TransDefs \<Rightarrow> bool \<Rightarrow> TransTable \<Rightarrow> 64 word \<Rightarrow> TransTable \<times> (nat \<times> nat) option" where
  "getTranspositionEntry defs TEXEL table hash =
     (let b = bucketIndex table hash;
          h16 = hashKey hash
      in if TEXEL then (table, None)
         else case probeLoop (buckets table ! b) h16 0 of
           None \<Rightarrow> (table, None)
         | Some i \<Rightarrow>
             (table\<lparr>buckets := (buckets table)
                [b := (buckets table ! b)
                   [i := (buckets table ! b ! i)\<lparr>age := asAge defs (generation table)\<rparr>]]\<rparr>,
              Some (b, i)))"

text \<open>
  The scan of \<open>storeTranspositionEntry\<close>. \<open>oldOption\<close> and \<open>lowDraftOption\<close> are pointers
  into the bucket, so indices, \<open>None\<close> while \<open>NULL\<close>. The result is \<open>toReplace\<close> and what
  is added to \<open>table->used\<close>; the two \<open>goto Replace\<close> leave the loop at once.
\<close>

function storeScan ::
  "TransEntry list \<Rightarrow> nat \<Rightarrow> 16 word \<Rightarrow> nat \<Rightarrow> nat option \<Rightarrow> nat option \<Rightarrow> nat option \<times> nat" where
  "storeScan entries' gen h16 i oldOption lowDraftOption =
     (if i < length entries' then
        (if type (entries' ! i) = 0 then (Some i, 1)
         else if hash16 (entries' ! i) = h16 then (Some i, 0)
         else
           (let oldOption' =
                  (if age (entries' ! i) \<noteq> gen \<and>
                      (case oldOption of None \<Rightarrow> True
                       | Some old \<Rightarrow> depth (entries' ! old) \<ge> depth (entries' ! i))
                   then Some i else oldOption);
                lowDraftOption' =
                  (if oldOption' = None \<and>
                      (case lowDraftOption of None \<Rightarrow> True
                       | Some low \<Rightarrow> depth (entries' ! low) \<ge> depth (entries' ! i))
                   then Some i else lowDraftOption)
            in storeScan entries' gen h16 (i + 1) oldOption' lowDraftOption'))
      else (if oldOption \<noteq> None then oldOption else lowDraftOption, 0))"
  by pat_completeness auto
termination
  by (relation "measure (\<lambda>(es, gen, h16, i, oldOption, lowDraftOption). length es - i)")
    auto

declare storeScan.simps [simp del]

definition storeTranspositionEntry ::
  "TransDefs \<Rightarrow> TransTable \<Rightarrow> int \<Rightarrow> int \<Rightarrow> int \<Rightarrow> int \<Rightarrow> 64 word \<Rightarrow> fault + TransTable" where
  "storeTranspositionEntry defs table depth' type' val bestMove' hash =
     (if \<not> (depth' < MAX_DEPTH defs \<and> depth' \<ge> 0) then Inl AssertionFailed
      else if \<not> (type' = PVNODE defs \<or> type' = CUTNODE defs \<or> type' = ALLNODE defs)
        then Inl AssertionFailed
      else if \<not> (val \<le> MATE defs \<and> val \<ge> - MATE defs) then Inl AssertionFailed
      else
        (let b = bucketIndex table hash;
             entries' = buckets table ! b;
             h16 = hashKey hash
         in case storeScan entries' (generation table) h16 0 None None of
           (None, n) \<Rightarrow> Inl NullPointer
         | (Some toReplace, n) \<Rightarrow>
             Inr (table\<lparr>used := used table + n,
                        buckets := (buckets table)
                          [b := entries'
                             [toReplace := \<lparr>hash16 = h16, value' = asValue defs val,
                                            depth = asDepth defs depth',
                                            age = asAge defs (generation table),
                                            type = asType defs type',
                                            bestMove = asBestMove defs bestMove'\<rparr>]]\<rparr>)))"

subsection \<open>The table size as a specification\<close>

text \<open>
  The size the specification asks of \<open>initalizeTranspositionTable\<close>, in its words: the
  number of buckets is a power of two, and that many 32-byte buckets are the largest
  power-of-two byte total at or below \<open>megabytes * 2^20\<close>, or 1MB where the request is
  smaller than 1MB.
\<close>

definition tableSizeAsClaimed :: "nat \<Rightarrow> nat \<Rightarrow> bool" where
  "tableSizeAsClaimed megabytes n \<longleftrightarrow>
     (\<exists>k. n = 2 ^ k) \<and>
     (if megabytes * 2 ^ 20 < 2 ^ 20 then n * 32 = 2 ^ 20
      else n * 32 \<le> megabytes * 2 ^ 20 \<and> megabytes * 2 ^ 20 < 2 * (n * 32))"

subsection \<open>The replacement policy as a specification\<close>

text \<open>
  The replacement policy of \<open>storeTranspositionEntry\<close> as a specification. An entry is
  accepted at once when it is unused or carries the key; \<open>lowestDepthAmong P\<close> is the entry
  of lowest depth among those satisfying \<open>P\<close>, the last of them in scan order where several
  share that depth (the code compares with \<open>>=\<close>).
\<close>

definition acceptedAtOnce :: "16 word \<Rightarrow> TransEntry \<Rightarrow> bool" where
  "acceptedAtOnce h16 e \<longleftrightarrow> type e = 0 \<or> hash16 e = h16"

definition lowestDepthAmong :: "(TransEntry \<Rightarrow> bool) \<Rightarrow> TransEntry list \<Rightarrow> nat \<Rightarrow> bool" where
  "lowestDepthAmong P es k \<longleftrightarrow>
     k < length es \<and> P (es ! k) \<and>
     (\<forall>j<length es. P (es ! j) \<longrightarrow>
        depth (es ! k) \<le> depth (es ! j) \<and> (depth (es ! j) = depth (es ! k) \<longrightarrow> j \<le> k))"

text \<open>
  The entry to overwrite: the first one accepted at once, if any; else the lowest-depth
  entry of another generation, if any; else the lowest-depth entry (all are of the current
  generation then).
\<close>

definition replacementRule :: "TransEntry list \<Rightarrow> nat \<Rightarrow> 16 word \<Rightarrow> nat \<Rightarrow> bool" where
  "replacementRule es gen h16 k \<longleftrightarrow>
     (if \<exists>e\<in>set es. acceptedAtOnce h16 e
      then k < length es \<and> acceptedAtOnce h16 (es ! k) \<and> (\<forall>j<k. \<not> acceptedAtOnce h16 (es ! j))
      else if \<exists>e\<in>set es. age e \<noteq> gen
      then lowestDepthAmong (\<lambda>e. age e \<noteq> gen) es k
      else lowestDepthAmong (\<lambda>e. age e = gen) es k)"

text \<open>What the scan knows after looking at the entries below \<open>i\<close> without leaving.\<close>

definition scanInv :: "TransEntry list \<Rightarrow> nat \<Rightarrow> nat \<Rightarrow> nat option \<Rightarrow> nat option \<Rightarrow> bool" where
  "scanInv es gen i old low \<longleftrightarrow>
     (case old of
        None \<Rightarrow> (\<forall>j<i. age (es ! j) = gen) \<and>
          (case low of
             None \<Rightarrow> i = 0
           | Some l \<Rightarrow> l < i \<and> (\<forall>j<i. depth (es ! l) \<le> depth (es ! j)
                                  \<and> (depth (es ! j) = depth (es ! l) \<longrightarrow> j \<le> l)))
      | Some o' \<Rightarrow> o' < i \<and> age (es ! o') \<noteq> gen \<and>
          (\<forall>j<i. age (es ! j) \<noteq> gen \<longrightarrow>
             depth (es ! o') \<le> depth (es ! j) \<and> (depth (es ! j) = depth (es ! o') \<longrightarrow> j \<le> o')))"

text \<open>
  A table as \<open>initalizeTranspositionTable\<close> allocates it: \<open>numBuckets\<close> buckets, at least
  one, each with at least one entry.
\<close>

definition validTable :: "TransTable \<Rightarrow> bool" where
  "validTable table \<longleftrightarrow>
     numBuckets table \<noteq> 0 \<and> length (buckets table) = unat (numBuckets table)
     \<and> (\<forall>bucket\<in>set (buckets table). bucket \<noteq> [])"

text \<open>
  Values of the constants for the examples below, with the conversions of an entry of
  8 bytes: a 16-bit signed value, an 8-bit depth, 6 bits of age, 2 bits of type and a 16-bit
  best move, beside the 16-bit key.
\<close>

definition sampleDefs :: TransDefs where
  "sampleDefs = \<lparr>MAX_DEPTH = 128, MATE = 32000, PVNODE = 1, CUTNODE = 2, ALLNODE = 3,
                  BUCKET_SIZE = 4, sizeof_TransBucket = 32,
                  asValue = (\<lambda>v. sint (word_of_int v :: 16 word)),
                  asDepth = (\<lambda>d. uint (word_of_int d :: 8 word)),
                  asAge = (\<lambda>g. g mod 64),
                  asType = (\<lambda>t. t mod 4),
                  asBestMove = (\<lambda>m. uint (word_of_int m :: 16 word))\<rparr>"

text \<open>
  The policy read the other way: any unused entry first, and the key only when no entry
  is unused.
\<close>

definition replacementRuleAsClaimed :: "TransEntry list \<Rightarrow> nat \<Rightarrow> 16 word \<Rightarrow> nat \<Rightarrow> bool" where
  "replacementRuleAsClaimed es gen h16 k \<longleftrightarrow>
     (if \<exists>e\<in>set es. type e = 0
      then k < length es \<and> type (es ! k) = 0 \<and> (\<forall>j<k. type (es ! j) \<noteq> 0)
      else if \<exists>e\<in>set es. hash16 e = h16
      then k < length es \<and> hash16 (es ! k) = h16 \<and> (\<forall>j<k. hash16 (es ! j) \<noteq> h16)
      else if \<exists>e\<in>set es. age e \<noteq> gen
      then lowestDepthAmong (\<lambda>e. age e \<noteq> gen) es k
      else lowestDepthAmong (\<lambda>e. age e = gen) es k)"

text \<open>A table of two buckets; the second holds one stored position and three unused entries.\<close>

definition sampleBucket :: TransBucket where
  "sampleBucket =
     [\<lparr>hash16 = 0xABCD, value' = 10, depth = 5, age = 0, type = 1, bestMove = 7\<rparr>,
      zeroTransEntry, zeroTransEntry, zeroTransEntry]"

definition sampleTable :: TransTable where
  "sampleTable = \<lparr>buckets = [replicate 4 zeroTransEntry, sampleBucket], numBuckets = 2,
                   keySize = 1, generation = 0, used = 1\<rparr>"

section \<open>Move generation and the legality filter\<close>

subsection \<open>Data\<close>

text \<open>
  The side to move is an \<open>int\<close> that indexes \<open>Colors\<close> and is compared with \<open>WHITE\<close> and
  \<open>BLACK\<close>; \<open>!turn\<close> is the other side. Piece kinds index \<open>Pieces\<close>, and \<open>EMPTY\<close>
  is the kind of an empty square. The move tags are the constants the generators assign.
\<close>

datatype colour = WHITE | BLACK

fun other :: "colour \<Rightarrow> colour" where
  "other WHITE = BLACK"
| "other BLACK = WHITE"

datatype piece = PAWN | KNIGHT | BISHOP | ROOK | QUEEN | KING | EMPTY

datatype MoveType =
    NormalMove | PawnDoublePushMove
  | BreaksLeftCastleMove | BreaksRightCastleMove | BreaksBothCastlesMove
  | LeftCastleMove | RightCastleMove
  | PromoteBishopMove | PromoteKnightMove | PromoteRookMove | PromoteQueenMove

text \<open>
  A move is \<open>malloc\<close>ed and its fields assigned one by one. A castle move gets only its
  \<open>Type\<close>: the fields never assigned are \<open>None\<close>.
\<close>

record Move =
  Start :: "int option"
  End :: "int option"
  CapturedType :: "piece option"
  MovedType :: "piece option"
  Type :: MoveType

text \<open>
  The board, as far as the generators read it. The arrays indexed by a square are
  functions of the square, the move databases functions of the square and the index.
\<close>

record Board =
  Colors :: "colour \<Rightarrow> 64 word"
  Pieces :: "piece \<Rightarrow> 64 word"
  KnightMap :: "nat \<Rightarrow> 64 word"
  KingMap :: "nat \<Rightarrow> 64 word"
  OccupancyMaskRook :: "nat \<Rightarrow> 64 word"
  OccupancyMaskBishop :: "nat \<Rightarrow> 64 word"
  MagicNumberRook :: "nat \<Rightarrow> 64 word"
  MagicNumberBishop :: "nat \<Rightarrow> 64 word"
  MagicShiftsRook :: "nat \<Rightarrow> nat"
  MagicShiftsBishop :: "nat \<Rightarrow> nat"
  MoveDatabaseRook :: "nat \<Rightarrow> int \<Rightarrow> 64 word"
  MoveDatabaseBishop :: "nat \<Rightarrow> int \<Rightarrow> 64 word"
  ValidCastles :: "colour \<Rightarrow> nat \<Rightarrow> int"
  Castled :: "colour \<Rightarrow> int"

text \<open>
  The rank and file masks and the castle-square bitboards come from headers that are not
  among the sources; they are parameters.
\<close>

record BoardDefs =
  RANK_1 :: "64 word"
  RANK_3 :: "64 word"
  RANK_6 :: "64 word"
  RANK_8 :: "64 word"
  FILE_A :: "64 word"
  FILE_H :: "64 word"
  LeftCastleBoards :: "colour \<Rightarrow> 64 word"
  RightCastleBoards :: "colour \<Rightarrow> 64 word"

subsection \<open>Helpers of the bit tools and the board\<close>

text \<open>
  Modelled from the spec: \<open>getLSB\<close> (BitTools) is not among the sources. It is the index of
  the lowest set bit ("lowest-set-bit iteration"); for a bitboard with no bit set the spec
  gives it no value, which is \<open>None\<close> here.
\<close>

definition getLSB :: "64 word \<Rightarrow> nat option" where
  "getLSB bb = List.find (bit bb) [0..<64]"

text \<open>
  Modelled from the spec: \<open>getSquare\<close> (Board) is not among the sources. It "must return
  the occupant kind or empty": the kind whose bitboard has the square's bit, \<open>EMPTY\<close> if
  none has.
\<close>

definition getSquare :: "nat \<Rightarrow> Board \<Rightarrow> piece" where
  "getSquare sq board =
     (case List.find (\<lambda>p. bit (Pieces board p) sq) [PAWN, KNIGHT, BISHOP, ROOK, QUEEN, KING] of
        None \<Rightarrow> EMPTY
      | Some p \<Rightarrow> p)"

text \<open>
  \<open>(int)((bbBlockers * magic) >> shift)\<close>: the product wraps at 64 bits and the cast keeps
  32. The shift amounts of the tables are taken to be below 64.
\<close>

definition magicIndex :: "64 word \<Rightarrow> 64 word \<Rightarrow> nat \<Rightarrow> int" where
  "magicIndex bbBlockers magic shift =
     sint (ucast (drop_bit shift (bbBlockers * magic)) :: 32 word)"

lemma clear_bit_less:
  assumes "bit (w :: 64 word) n"
  shows "unat (w XOR push_bit n 1) < unat w"
proof -
  have n: "n < 64"
    using bit_imp_le_length [OF assms] by simp
  have "w XOR push_bit n 1 = flip_bit n w"
    by (simp add: flip_bit_eq_xor)
  also have "\<dots> = unset_bit n w"
    using assms by (simp add: flip_bit_eq_if)
  also have "\<dots> = w - 2 ^ n"
    using assms by (simp add: unset_bit_eq)
  finally have eq: "w XOR push_bit n 1 = w - 2 ^ n" .
  have "bit (unat w) n"
    using assms by (simp add: bit_unsigned_iff)
  then have "odd (unat w div 2 ^ n)"
    by (simp add: bit_iff_odd)
  then have "unat w div 2 ^ n \<noteq> 0"
    by (rule_tac notI) simp
  then have le: "2 ^ n \<le> unat w"
    by (metis div_less not_le)
  have "unat (push_bit n (1 :: 64 word)) = take_bit 64 (push_bit n (unat (1 :: 64 word)))"
    using unsigned_push_bit_eq [of n "1 :: 64 word", where ?'a = nat] by simp
  also have "\<dots> = take_bit 64 ((2::nat) ^ n)"
    by (simp add: push_bit_eq_mult)
  also have "\<dots> = 2 ^ n"
    using n by (simp add: take_bit_nat_eq_self_iff)
  finally have p: "unat (2 ^ n :: 64 word) = 2 ^ n"
    by simp
  with le have "(2 ^ n :: 64 word) \<le> w"
    by (simp add: word_le_nat_alt)
  then have "unat (w - 2 ^ n) = unat w - 2 ^ n"
    using p by (simp add: unat_sub)
  moreover have "(0::nat) < 2 ^ n"
    by simp
  ultimately have "unat (w - 2 ^ n) < unat w"
    using le by linarith
  then show ?thesis
    by (simp only: eq)
qed

text \<open>
  The loop every generator runs over a bitboard:
  \<^verbatim>\<open>while (bb != 0) { int lsb = getLSB(bb); ...; bb ^= 1ull << lsb; }\<close>
  The body gets the bit's index and the state the loop changes, here the move list. Inside
  the loop the bitboard is not zero and \<open>getLSB\<close> has a value.
\<close>

function forEachBit :: "(nat \<Rightarrow> 'a \<Rightarrow> 'a) \<Rightarrow> 64 word \<Rightarrow> 'a \<Rightarrow> 'a" where
  "forEachBit body bb s =
     (if bb = 0 then s
      else case getLSB bb of
        None \<Rightarrow> s
      | Some lsb \<Rightarrow> forEachBit body (bb XOR push_bit lsb 1) (body lsb s))"
  by pat_completeness auto
termination
proof (relation "measure (\<lambda>(body, bb, s). unat bb)")
  show "wf (measure (\<lambda>(body :: nat \<Rightarrow> 'a \<Rightarrow> 'a, bb :: 64 word, s :: 'a). unat bb))"
    by simp
next
  fix body :: "nat \<Rightarrow> 'a \<Rightarrow> 'a" and bb :: "64 word" and s :: 'a and lsb
  assume "bb \<noteq> 0" and "getLSB bb = Some lsb"
  then have "bit bb lsb"
    by (auto simp: getLSB_def find_Some_iff)
  then show "((body, bb XOR push_bit lsb 1, body lsb s), (body, bb, s))
      \<in> measure (\<lambda>(body, bb, s). unat bb)"
    using clear_bit_less by simp
qed

declare forEachBit.simps [simp del]

subsection \<open>The generators\<close>

text \<open>
  Each generator appends to \<open>moves\<close> at \<open>*index\<close>; the list is \<open>moves[0 .. *index)\<close>. The
  buffer of 256 pointers is not modelled: a list longer than that is outside the model.
\<close>

definition getKnightMoves :: "Board \<Rightarrow> Move list \<Rightarrow> colour \<Rightarrow> Move list" where
  "getKnightMoves board moves turn =
     (let friendly = Colors board turn;
          friendlyKnights = Pieces board KNIGHT AND friendly
      in forEachBit (\<lambda>bit' moves.
           let attackable = KnightMap board bit' AND NOT friendly
           in forEachBit (\<lambda>lsb moves. moves @
                [\<lparr>Start = Some (int bit'), End = Some (int lsb),
                  CapturedType = Some (getSquare lsb board), MovedType = Some KNIGHT,
                  Type = NormalMove\<rparr>]) attackable moves)
         friendlyKnights moves)"

text \<open>
  In \<open>getKingMoves\<close> the guard \<open>board->Pieces[KING] & friendly == 0\<close> and the two tests
  \<open>(board->Colors[0] | board->Colors[1]) & LeftCastleBoards[turn] == 0\<close> parse as
  \<open>a & (b == 0)\<close>, since \<open>==\<close> binds tighter than \<open>&\<close>: the comparison yields 1 or 0.
\<close>

definition getKingMoves :: "BoardDefs \<Rightarrow> Board \<Rightarrow> Move list \<Rightarrow> colour \<Rightarrow> fault + Move list" where
  "getKingMoves defs board moves turn =
     (let friendly = Colors board turn
      in if Pieces board KING AND (if friendly = 0 then 1 else 0) \<noteq> 0 then Inr moves
         else case getLSB (Pieces board KING AND friendly) of
           None \<Rightarrow> Inl EmptyBitboard
         | Some bit' \<Rightarrow>
             (let attackable = KingMap board bit' AND NOT friendly;
                  moves1 = forEachBit (\<lambda>lsb moves. moves @
                    [\<lparr>Start = Some (int bit'), End = Some (int lsb),
                      CapturedType = Some (getSquare lsb board), MovedType = Some KING,
                      Type = (if ValidCastles board turn 0 \<noteq> 0 then
                                (if ValidCastles board turn 1 \<noteq> 0 then BreaksBothCastlesMove
                                 else BreaksLeftCastleMove)
                              else if ValidCastles board turn 1 \<noteq> 0 then BreaksRightCastleMove
                              else NormalMove)\<rparr>]) attackable moves
              in if Castled board turn = 0 then
                   (let moves2 =
                          (if ValidCastles board turn 0 = 1 \<and>
                              (Colors board WHITE OR Colors board BLACK)
                                AND (if LeftCastleBoards defs turn = 0 then 1 else 0) \<noteq> 0
                           then moves1 @ [\<lparr>Start = None, End = None, CapturedType = None,
                                            MovedType = None, Type = LeftCastleMove\<rparr>]
                           else moves1);
                        moves3 =
                          (if ValidCastles board turn 1 = 1 \<and>
                              (Colors board WHITE OR Colors board BLACK)
                                AND (if RightCastleBoards defs turn = 0 then 1 else 0) \<noteq> 0
                           then moves2 @ [\<lparr>Start = None, End = None, CapturedType = None,
                                            MovedType = None, Type = RightCastleMove\<rparr>]
                           else moves2)
                    in Inr moves3)
                 else Inr moves1))"

text \<open>
  \<open>getPawnMoves\<close> shifts the whole pawn bitboard. The promotion bitboards \<open>onePromote\<close>,
  \<open>leftPromote\<close> and \<open>rightPromote\<close> are computed and then not used: the three loops
  over them are commented out in the source.
\<close>

definition getPawnMoves :: "BoardDefs \<Rightarrow> Board \<Rightarrow> Move list \<Rightarrow> colour \<Rightarrow> Move list" where
  "getPawnMoves defs board moves turn =
     (let friendly = Colors board turn;
          enemy = Colors board (other turn);
          forwardShift = (if turn = WHITE then 8 else - 8 :: int);
          leftShift = (if turn = WHITE then 7 else - 7 :: int);
          rightShift = (if turn = WHITE then 9 else - 9 :: int);
          pawns = Pieces board PAWN AND friendly;
          oneMove0 = (if turn = WHITE then push_bit 8 pawns AND NOT (friendly OR enemy)
                      else drop_bit 8 pawns AND NOT (friendly OR enemy));
          onePromote = (if turn = WHITE then oneMove0 AND RANK_8 defs
                        else oneMove0 AND RANK_1 defs);
          oneMove = (if turn = WHITE then oneMove0 AND NOT (RANK_8 defs)
                     else oneMove0 AND NOT (RANK_1 defs));
          twoMove = (if turn = WHITE
                     then push_bit 8 (oneMove AND RANK_3 defs) AND NOT (friendly OR enemy)
                     else drop_bit 8 (oneMove AND RANK_6 defs) AND NOT (friendly OR enemy));
          leftMove0 = (if turn = WHITE then (push_bit 7 pawns AND NOT (FILE_A defs)) AND enemy
                       else (drop_bit 7 pawns AND NOT (FILE_H defs)) AND enemy);
          leftPromote = (if turn = WHITE then leftMove0 AND RANK_8 defs
                         else leftMove0 AND RANK_1 defs);
          leftMove = (if turn = WHITE then leftMove0 AND NOT (RANK_8 defs)
                      else leftMove0 AND NOT (RANK_1 defs));
          rightMove0 = (if turn = WHITE then (push_bit 9 pawns AND NOT (FILE_H defs)) AND enemy
                        else (drop_bit 9 pawns AND NOT (FILE_A defs)) AND enemy);
          rightPromote = (if turn = WHITE then rightMove0 AND RANK_8 defs
                          else rightMove0 AND RANK_1 defs);
          rightMove = (if turn = WHITE then rightMove0 AND NOT (RANK_8 defs)
                       else rightMove0 AND NOT (RANK_1 defs));
          moves1 = forEachBit (\<lambda>lsb moves. moves @
                     [\<lparr>Start = Some (int lsb - forwardShift), End = Some (int lsb),
                       CapturedType = Some EMPTY, MovedType = Some PAWN,
                       Type = NormalMove\<rparr>]) oneMove moves;
          moves2 = forEachBit (\<lambda>lsb moves. moves @
                     [\<lparr>Start = Some (int lsb - 2 * forwardShift), End = Some (int lsb),
                       CapturedType = Some EMPTY, MovedType = Some PAWN,
                       Type = PawnDoublePushMove\<rparr>]) twoMove moves1;
          moves3 = forEachBit (\<lambda>lsb moves. moves @
                     [\<lparr>Start = Some (int lsb - leftShift), End = Some (int lsb),
                       CapturedType = Some (getSquare lsb board), MovedType = Some PAWN,
                       Type = NormalMove\<rparr>]) leftMove moves2
      in forEachBit (\<lambda>lsb moves. moves @
           [\<lparr>Start = Some (int lsb - rightShift), End = Some (int lsb),
             CapturedType = Some (getSquare lsb board), MovedType = Some PAWN,
             Type = NormalMove\<rparr>]) rightMove moves3)"

definition getRookMoves :: "Board \<Rightarrow> Move list \<Rightarrow> colour \<Rightarrow> Move list" where
  "getRookMoves board moves turn =
     (let friendly = Colors board turn;
          friendlyRooks = Pieces board ROOK AND friendly
      in forEachBit (\<lambda>bit' moves.
           let bbBlockers = (Colors board WHITE OR Colors board BLACK) AND OccupancyMaskRook board bit';
               dbIndex = magicIndex bbBlockers (MagicNumberRook board bit') (MagicShiftsRook board bit');
               attackable = MoveDatabaseRook board bit' dbIndex AND NOT friendly
           in forEachBit (\<lambda>lsb moves. moves @
                [\<lparr>Start = Some (int bit'), End = Some (int lsb),
                  CapturedType = Some (getSquare lsb board), MovedType = Some ROOK,
                  Type = (if ValidCastles board turn 0 \<noteq> 0 \<and> (bit' = 0 \<or> bit' = 56)
                          then BreaksLeftCastleMove
                          else if ValidCastles board turn 1 \<noteq> 0 \<and> (bit' = 7 \<or> bit' = 63)
                          then BreaksRightCastleMove
                          else NormalMove)\<rparr>]) attackable moves)
         friendlyRooks moves)"

definition getBishopMoves :: "Board \<Rightarrow> Move list \<Rightarrow> colour \<Rightarrow> Move list" where
  "getBishopMoves board moves turn =
     (let friendly = Colors board turn;
          friendlyBishops = Pieces board BISHOP AND friendly
      in forEachBit (\<lambda>bit' moves.
           let bbBlockers = (Colors board WHITE OR Colors board BLACK) AND OccupancyMaskBishop board bit';
               dbIndex = magicIndex bbBlockers (MagicNumberBishop board bit') (MagicShiftsBishop board bit');
               attackable = MoveDatabaseBishop board bit' dbIndex AND NOT friendly
           in forEachBit (\<lambda>lsb moves. moves @
                [\<lparr>Start = Some (int bit'), End = Some (int lsb),
                  CapturedType = Some (getSquare lsb board), MovedType = Some BISHOP,
                  Type = NormalMove\<rparr>]) attackable moves)
         friendlyBishops moves)"

definition getQueenMoves :: "Board \<Rightarrow> Move list \<Rightarrow> colour \<Rightarrow> Move list" where
  "getQueenMoves board moves turn =
     (let friendly = Colors board turn;
          friendlyQueens = Pieces board QUEEN AND friendly
      in forEachBit (\<lambda>bit' moves.
           let bbBlockers = (Colors board WHITE OR Colors board BLACK) AND OccupancyMaskRook board bit';
               dbIndex = magicIndex bbBlockers (MagicNumberRook board bit') (MagicShiftsRook board bit');
               attackable = MoveDatabaseRook board bit' dbIndex AND NOT friendly;
               moves1 = forEachBit (\<lambda>lsb moves. moves @
                 [\<lparr>Start = Some (int bit'), End = Some (int lsb),
                   CapturedType = Some (getSquare lsb board), MovedType = Some QUEEN,
                   Type = NormalMove\<rparr>]) attackable moves;
               bbBlockers' = (Colors board WHITE OR Colors board BLACK) AND OccupancyMaskBishop board bit';
               dbIndex' = magicIndex bbBlockers' (MagicNumberBishop board bit') (MagicShiftsBishop board bit');
               attackable' = MoveDatabaseBishop board bit' dbIndex' AND NOT friendly
           in forEachBit (\<lambda>lsb moves. moves @
                [\<lparr>Start = Some (int bit'), End = Some (int lsb),
                  CapturedType = Some (getSquare lsb board), MovedType = Some QUEEN,
                  Type = NormalMove\<rparr>]) attackable' moves1)
         friendlyQueens moves)"

subsection \<open>The legality filter\<close>

text \<open>
  \<open>validateMove\<close> answers 1 when the king of \<open>turn\<close> is not attacked and 0 when it is.
  It takes the king's square with \<open>getLSB\<close> and no test that there is a king.
\<close>

definition validateMove :: "BoardDefs \<Rightarrow> Board \<Rightarrow> colour \<Rightarrow> fault + int" where
  "validateMove defs board turn =
     (let friendly = Colors board turn;
          enemy = Colors board (other turn);
          all = friendly OR enemy;
          king = friendly AND Pieces board KING
      in case getLSB king of
        None \<Rightarrow> Inl EmptyBitboard
      | Some kingSquare \<Rightarrow>
          (let bbBlockers = all AND OccupancyMaskBishop board kingSquare;
               dbIndex = magicIndex bbBlockers (MagicNumberBishop board kingSquare)
                           (MagicShiftsBishop board kingSquare);
               attackable = MoveDatabaseBishop board kingSquare dbIndex AND NOT friendly
           in if (Pieces board BISHOP OR Pieces board QUEEN) AND enemy AND attackable \<noteq> 0
              then Inr 0
              else
                (let bbBlockers' = all AND OccupancyMaskRook board kingSquare;
                     dbIndex' = magicIndex bbBlockers' (MagicNumberRook board kingSquare)
                                  (MagicShiftsRook board kingSquare);
                     attackable' = MoveDatabaseRook board kingSquare dbIndex'
                 in if (Pieces board ROOK OR Pieces board QUEEN) AND enemy AND attackable' \<noteq> 0
                    then Inr 0
                    else if KnightMap board kingSquare AND (enemy AND Pieces board KNIGHT) \<noteq> 0
                    then Inr 0
                    else
                      (let enemyPawns = enemy AND Pieces board PAWN
                       in if turn = WHITE \<and>
                             (push_bit 7 king AND NOT (FILE_A defs)) AND enemyPawns \<noteq> 0
                          then Inr 0
                          else if turn = WHITE \<and>
                             (push_bit 9 king AND NOT (FILE_H defs)) AND enemyPawns \<noteq> 0
                          then Inr 0
                          else if turn = BLACK \<and>
                             (drop_bit 7 king AND NOT (FILE_H defs)) AND enemyPawns \<noteq> 0
                          then Inr 0
                          else if turn = BLACK \<and>
                             (drop_bit 9 king AND NOT (FILE_A defs)) AND enemyPawns \<noteq> 0
                          then Inr 0
                          else if KingMap board kingSquare AND (enemy AND Pieces board KING) \<noteq> 0
                          then Inr 0
                          else Inr 1))))"

text \<open>
  \<open>ApplyMove\<close> and \<open>RevertMove\<close> belong to the board and are not among the sources; the
  filter takes them as parameters. The loop of \<open>validateCheck\<close> runs over \<open>moves[0 .. size)\<close>,
  threads the board through apply and revert, and appends the moves that pass to \<open>fixed\<close>.
\<close>

type_synonym boardOp = "Board \<Rightarrow> Move \<Rightarrow> colour \<Rightarrow> Board"

fun validateCheckLoop ::
  "BoardDefs \<Rightarrow> boardOp \<Rightarrow> boardOp \<Rightarrow> Board \<Rightarrow> Move list \<Rightarrow> colour \<Rightarrow> Move list
     \<Rightarrow> fault + (Move list \<times> Board)" where
  "validateCheckLoop defs ApplyMove RevertMove board [] turn fixed = Inr (fixed, board)"
| "validateCheckLoop defs ApplyMove RevertMove board (move # moves) turn fixed =
     (let applied = ApplyMove board move turn
      in case validateMove defs applied turn of
        Inl f \<Rightarrow> Inl f
      | Inr valid \<Rightarrow>
          (let reverted = RevertMove applied move turn
           in validateCheckLoop defs ApplyMove RevertMove reverted moves turn
                (if valid = 1 then fixed @ [move] else fixed)))"

definition validateCheck ::
  "BoardDefs \<Rightarrow> boardOp \<Rightarrow> boardOp \<Rightarrow> Board \<Rightarrow> Move list \<Rightarrow> colour
     \<Rightarrow> fault + (Move list \<times> Board)" where
  "validateCheck defs ApplyMove RevertMove board moves turn =
     validateCheckLoop defs ApplyMove RevertMove board moves turn []"

text \<open>\<open>getAllMoves\<close>, called with \<open>*index = 0\<close>: the six generators in the source's order, then the filter.\<close>

definition getAllMoves ::
  "BoardDefs \<Rightarrow> boardOp \<Rightarrow> boardOp \<Rightarrow> Board \<Rightarrow> colour \<Rightarrow> fault + (Move list \<times> Board)" where
  "getAllMoves defs ApplyMove RevertMove board turn =
     (case getKingMoves defs board [] turn of
        Inl f \<Rightarrow> Inl f
      | Inr moves1 \<Rightarrow>
          (let moves2 = getQueenMoves board moves1 turn;
               moves3 = getRookMoves board moves2 turn;
               moves4 = getKnightMoves board moves3 turn;
               moves5 = getBishopMoves board moves4 turn;
               moves6 = getPawnMoves defs board moves5 turn
           in validateCheck defs ApplyMove RevertMove board moves6 turn))"

subsection \<open>What the claims say of a move\<close>

fun isPromotion :: "MoveType \<Rightarrow> bool" where
  "isPromotion PromoteBishopMove = True"
| "isPromotion PromoteKnightMove = True"
| "isPromotion PromoteRookMove = True"
| "isPromotion PromoteQueenMove = True"
| "isPromotion _ = False"

fun isCastle :: "MoveType \<Rightarrow> bool" where
  "isCastle LeftCastleMove = True"
| "isCastle RightCastleMove = True"
| "isCastle _ = False"

text \<open>A move that carries both squares, and two different ones.\<close>

definition startEndDiffer :: "Move \<Rightarrow> bool" where
  "startEndDiffer m \<longleftrightarrow> Start m \<noteq> None \<and> End m \<noteq> None \<and> Start m \<noteq> End m"

text \<open>
  \<open>emits Q moves moves'\<close>: a generator called on \<open>moves\<close> returned \<open>moves'\<close>, which is
  \<open>moves\<close> followed by the moves it emitted, each satisfying \<open>Q\<close>.
\<close>

definition emits :: "(Move \<Rightarrow> bool) \<Rightarrow> Move list \<Rightarrow> Move list \<Rightarrow> bool" where
  "emits Q moves moves' \<longleftrightarrow> (\<exists>new. moves' = moves @ new \<and> (\<forall>m\<in>set new. Q m))"

text \<open>What every emitted move satisfies: no promotion tag, and two different squares unless it is a castle.\<close>

definition moveOK :: "Move \<Rightarrow> bool" where
  "moveOK m \<longleftrightarrow> \<not> isPromotion (Type m) \<and> (isCastle (Type m) \<or> startEndDiffer m)"

subsection \<open>Boards for the examples\<close>

text \<open>
  Values for the absent masks, and the attack maps of king and knight computed from the
  square. The example boards have no sliding piece, and their magic tables are left empty.
\<close>

definition sampleBoardDefs :: BoardDefs where
  "sampleBoardDefs =
     \<lparr>RANK_1 = 0xFF, RANK_3 = 0xFF0000, RANK_6 = 0xFF0000000000, RANK_8 = 0xFF00000000000000,
      FILE_A = 0x0101010101010101, FILE_H = 0x8080808080808080,
      LeftCastleBoards = (\<lambda>turn. case turn of WHITE \<Rightarrow> 0xE | BLACK \<Rightarrow> 0x0E00000000000000),
      RightCastleBoards = (\<lambda>turn. case turn of WHITE \<Rightarrow> 0x60 | BLACK \<Rightarrow> 0x6000000000000000)\<rparr>"

definition kingAttacks :: "nat \<Rightarrow> 64 word" where
  "kingAttacks sq =
     (let b = push_bit sq 1
      in ((push_bit 1 b OR push_bit 9 b OR drop_bit 7 b) AND NOT 0x0101010101010101)
         OR ((drop_bit 1 b OR drop_bit 9 b OR push_bit 7 b) AND NOT 0x8080808080808080)
         OR push_bit 8 b OR drop_bit 8 b)"

definition knightAttacks :: "nat \<Rightarrow> 64 word" where
  "knightAttacks sq =
     (let b = push_bit sq 1
      in ((push_bit 17 b OR drop_bit 15 b) AND NOT 0x0101010101010101)
         OR ((push_bit 10 b OR drop_bit 6 b) AND NOT 0x0303030303030303)
         OR ((push_bit 15 b OR drop_bit 17 b) AND NOT 0x8080808080808080)
         OR ((push_bit 6 b OR drop_bit 10 b) AND NOT 0xC0C0C0C0C0C0C0C0))"

definition emptyBoard :: Board where
  "emptyBoard =
     \<lparr>Colors = (\<lambda>c. 0), Pieces = (\<lambda>p. 0),
      KnightMap = knightAttacks, KingMap = kingAttacks,
      OccupancyMaskRook = (\<lambda>sq. 0), OccupancyMaskBishop = (\<lambda>sq. 0),
      MagicNumberRook = (\<lambda>sq. 0), MagicNumberBishop = (\<lambda>sq. 0),
      MagicShiftsRook = (\<lambda>sq. 0), MagicShiftsBishop = (\<lambda>sq. 0),
      MoveDatabaseRook = (\<lambda>sq i. 0), MoveDatabaseBishop = (\<lambda>sq i. 0),
      ValidCastles = (\<lambda>c side. 0), Castled = (\<lambda>c. 0)\<rparr>"

text \<open>
  White king on square 4 with both rooks at home, nothing between them, both rights held
  and not yet castled.
\<close>

definition castleBoard :: Board where
  "castleBoard = emptyBoard
     \<lparr>Colors := (\<lambda>c. case c of WHITE \<Rightarrow> 0x91 | BLACK \<Rightarrow> 0x1000000000000000),
      Pieces := (\<lambda>p. case p of KING \<Rightarrow> 0x1000000000000010 | ROOK \<Rightarrow> 0x81 | _ \<Rightarrow> 0),
      ValidCastles := (\<lambda>c side. 1)\<rparr>"

text \<open>
  A stand-in for the board's \<open>ApplyMove\<close> and \<open>RevertMove\<close> on moves to an empty square:
  it flips the two squares of the moved piece, and so undoes itself.
\<close>

definition sampleApply :: boardOp where
  "sampleApply board m turn =
     (case (Start m, End m, MovedType m) of
        (Some s, Some e, Some p) \<Rightarrow>
          (let mask = push_bit (nat s) 1 XOR push_bit (nat e) 1
           in board\<lparr>Colors := (Colors board)(turn := Colors board turn XOR mask),
                    Pieces := (Pieces board)(p := Pieces board p XOR mask)\<rparr>)
      | _ \<Rightarrow> board)"

text \<open>
  White king on square 4 and white pawn on square 8; black king on square 60 and a black
  knight on square 18, which attacks squares 3 and 12 next to the white king.
\<close>

definition knightBoard :: Board where
  "knightBoard = emptyBoard
     \<lparr>Colors := (\<lambda>c. case c of WHITE \<Rightarrow> 0x110 | BLACK \<Rightarrow> 0x1000000000040000),
      Pieces := (\<lambda>p. case p of KING \<Rightarrow> 0x1000000000000010 | KNIGHT \<Rightarrow> 0x40000
                      | PAWN \<Rightarrow> 0x100 | _ \<Rightarrow> 0)\<rparr>"

text \<open>A side with a pawn and no king.\<close>

definition kinglessBoard :: Board where
  "kinglessBoard = emptyBoard
     \<lparr>Colors := (\<lambda>c. case c of WHITE \<Rightarrow> 0x100 | BLACK \<Rightarrow> 0x1000000000000000),
      Pieces := (\<lambda>p. case p of KING \<Rightarrow> 0x1000000000000000 | PAWN \<Rightarrow> 0x100 | _ \<Rightarrow> 0)\<rparr>"

definition kingMove :: "int \<Rightarrow> int \<Rightarrow> MoveType \<Rightarrow> Move" where
  "kingMove s e t = \<lparr>Start = Some s, End = Some e, CapturedType = Some EMPTY,
                     MovedType = Some KING, Type = t\<rparr>"

definition pawnMove :: "int \<Rightarrow> int \<Rightarrow> MoveType \<Rightarrow> Move" where
  "pawnMove s e t = \<lparr>Start = Some s, End = Some e, CapturedType = Some EMPTY,
                     MovedType = Some PAWN, Type = t\<rparr>"

text \<open>What the generators emit for White on \<open>knightBoard\<close>, and what the filter keeps.\<close>

definition knightBoardCandidates :: "Move list" where
  "knightBoardCandidates =
     [kingMove 4 3 NormalMove, kingMove 4 5 NormalMove, kingMove 4 11 NormalMove,
      kingMove 4 12 NormalMove, kingMove 4 13 NormalMove,
      pawnMove 8 16 NormalMove, pawnMove 8 24 PawnDoublePushMove]"

definition knightBoardLegal :: "Move list" where
  "knightBoardLegal =
     [kingMove 4 5 NormalMove, kingMove 4 11 NormalMove, kingMove 4 13 NormalMove,
      pawnMove 8 16 NormalMove, pawnMove 8 24 PawnDoublePushMove]"

section \<open>Properties of the pawn cache\<close>

lemma pawnSlot_less: "pawnSlot h < 0x10000"
proof -
  have "unat h < 2 ^ 64"
    using unsigned_less [of h] by simp
  moreover have "unat (drop_bit 48 h) = drop_bit 48 (unat h)"
    by (rule unat_drop_bit_eq)
  moreover have "drop_bit 48 (unat h) = unat h div 2 ^ 48"
    by (rule drop_bit_eq_div)
  ultimately show ?thesis
    by (simp add: pawnSlot_def)
qed

lemma pawnSlot_initial: "entries initalizePawnTable ! pawnSlot h = zeroPawnEntry"
  using pawnSlot_less [of h] by (simp add: initalizePawnTable_def)

text \<open>
  Claim C5. \<open>getPawnEntry\<close> looks at the slot numbered by the top 16 bits of the hash
  (\<open>phash >> 48\<close>) and at no other; it returns that slot exactly when the full 64-bit
  hash stored there equals the probed hash, and \<open>NULL\<close> otherwise. In a table of
  \<open>0x10000\<close> slots, after \<open>storePawnEntry\<close> of a hash \<open>h\<close> a probe of \<open>h\<close> finds the
  stored values, and a probe of a different hash with the same top 16 bits returns \<open>NULL\<close>.
\<close>

theorem getPawnEntry_exact_hash:
  assumes "length (entries ptable) = 0x10000"
  shows "(getPawnEntry ptable h = Some (unat (drop_bit 48 h))
            \<longleftrightarrow> phash (entries ptable ! unat (drop_bit 48 h)) = h)
       \<and> (getPawnEntry ptable h = None
            \<longleftrightarrow> phash (entries ptable ! unat (drop_bit 48 h)) \<noteq> h)
       \<and> (getPawnEntry ptable h = None \<or> getPawnEntry ptable h = Some (unat (drop_bit 48 h)))
       \<and> unat (drop_bit 48 h) < length (entries ptable)
       \<and> getPawnEntry (storePawnEntry ptable h p m e) h = Some (unat (drop_bit 48 h))
       \<and> entries (storePawnEntry ptable h p m e) ! unat (drop_bit 48 h)
            = \<lparr>phash = h, passed = p, mg = m, eg = e\<rparr>
       \<and> (h' \<noteq> h \<and> drop_bit 48 h' = drop_bit 48 h
            \<longrightarrow> getPawnEntry (storePawnEntry ptable h p m e) h' = None)"
proof -
  have slot: "pawnSlot h < length (entries ptable)"
    using assms pawnSlot_less [of h] by simp
  have stored: "entries (storePawnEntry ptable h p m e) ! pawnSlot h
      = \<lparr>phash = h, passed = p, mg = m, eg = e\<rparr>"
    using slot by (simp add: storePawnEntry_def Let_def)
  have same: "pawnSlot h' = pawnSlot h" if "drop_bit 48 h' = drop_bit 48 h"
    using that by (simp add: pawnSlot_def)
  have probe: "getPawnEntry (storePawnEntry ptable h p m e) h = Some (pawnSlot h)"
    using stored by (simp add: getPawnEntry_def Let_def)
  have miss: "getPawnEntry (storePawnEntry ptable h p m e) h' = None"
    if "h' \<noteq> h" and "drop_bit 48 h' = drop_bit 48 h"
    using that stored same by (simp add: getPawnEntry_def Let_def)
  have found: "getPawnEntry ptable h = Some (unat (drop_bit 48 h))
      \<longleftrightarrow> phash (entries ptable ! unat (drop_bit 48 h)) = h"
    by (simp add: getPawnEntry_def pawnSlot_def Let_def)
  have absent: "getPawnEntry ptable h = None
      \<longleftrightarrow> phash (entries ptable ! unat (drop_bit 48 h)) \<noteq> h"
    by (simp add: getPawnEntry_def pawnSlot_def Let_def)
  have either: "getPawnEntry ptable h = None
      \<or> getPawnEntry ptable h = Some (unat (drop_bit 48 h))"
    by (simp add: getPawnEntry_def pawnSlot_def Let_def)
  show ?thesis
    using found absent either slot [unfolded pawnSlot_def] stored [unfolded pawnSlot_def]
      probe [unfolded pawnSlot_def] miss
    by blast
qed

theorem getPawnEntry_exact_hash_witness:
  "getPawnEntry (storePawnEntry initalizePawnTable 0x0001000000000005 7 3 4)
     0x0001000000000005 = Some 1
   \<and> getPawnEntry (storePawnEntry initalizePawnTable 0x0001000000000005 7 3 4)
     0x0001000000000006 = None"
proof -
  have len: "length (entries initalizePawnTable) = 0x10000"
    by (simp add: initalizePawnTable_def)
  have top: "drop_bit 48 (0x0001000000000005 :: 64 word) = 1"
       "drop_bit 48 (0x0001000000000006 :: 64 word) = 1"
    by simp_all
  show ?thesis
    using getPawnEntry_exact_hash [OF len, of "0x0001000000000005" 7 3 4 "0x0001000000000006"]
    by (simp add: top)
qed

text \<open>
  Claim C10. Right after \<open>initalizePawnTable\<close>, whose \<open>calloc\<close> zeroes all \<open>0x10000\<close>
  slots, a probe of hash 0 returns slot 0, an all-zero entry that nobody stored, and a
  probe of any nonzero hash returns \<open>NULL\<close>.
\<close>

theorem getPawnEntry_fresh_table:
  "length (entries initalizePawnTable) = 0x10000
   \<and> getPawnEntry initalizePawnTable 0 = Some 0
   \<and> entries initalizePawnTable ! 0 = \<lparr>phash = 0, passed = 0, mg = 0, eg = 0\<rparr>
   \<and> (\<forall>h. h \<noteq> 0 \<longrightarrow> getPawnEntry initalizePawnTable h = None)"
proof -
  have zero: "pawnSlot 0 = 0"
    by (simp add: pawnSlot_def)
  have hit: "getPawnEntry initalizePawnTable 0 = Some 0"
    using pawnSlot_initial [of 0] by (simp add: getPawnEntry_def zero zeroPawnEntry_def Let_def)
  have miss: "getPawnEntry initalizePawnTable h = None" if "h \<noteq> 0" for h
    using that pawnSlot_initial [of h] by (auto simp: getPawnEntry_def zeroPawnEntry_def Let_def)
  have first: "entries initalizePawnTable ! 0 = \<lparr>phash = 0, passed = 0, mg = 0, eg = 0\<rparr>"
    using pawnSlot_initial [of 0] by (simp add: zero zeroPawnEntry_def)
  show ?thesis
    using hit miss first by (simp add: initalizePawnTable_def)
qed

theorem getPawnEntry_fresh_table_witness:
  "getPawnEntry initalizePawnTable 0 = Some 0
   \<and> getPawnEntry initalizePawnTable 0x00AB000000000001 = None"
  using getPawnEntry_fresh_table by simp

section \<open>Properties of the transposition table\<close>

lemma unat_push_bit_one: "n < 64 \<Longrightarrow> unat (push_bit n (1 :: 64 word)) = 2 ^ n"
proof -
  assume n: "n < 64"
  have "unat (push_bit n (1 :: 64 word)) = take_bit 64 (push_bit n (unat (1 :: 64 word)))"
    using unsigned_push_bit_eq [of n "1 :: 64 word", where ?'a = nat] by simp
  also have "\<dots> = take_bit 64 ((2::nat) ^ n)"
    by (simp add: push_bit_eq_mult)
  also have "\<dots> = 2 ^ n"
    using n by (simp add: take_bit_nat_eq_self_iff)
  finally show ?thesis .
qed

lemma unat_megabytes:
  assumes "unat m < 2 ^ 43"
  shows "unat (push_bit 20 (m :: 64 word)) = unat m * 2 ^ 20"
proof -
  have "unat (push_bit 20 m) = take_bit 64 (push_bit 20 (unat m))"
    using unsigned_push_bit_eq [of 20 m, where ?'a = nat] by simp
  also have "\<dots> = take_bit 64 (unat m * 2 ^ 20)"
    by (simp add: push_bit_eq_mult)
  also have "\<dots> = unat m * 2 ^ 20"
    using assms by (simp add: take_bit_nat_eq_self_iff)
  finally show ?thesis .
qed

lemma keySizeLoop_result:
  "keySize' + 5 < 64 \<Longrightarrow> unat (push_bit 20 megabytes) < 2 ^ 63 \<Longrightarrow>
   \<exists>r. keySizeLoop megabytes keySize' = Inr r \<and> keySize' \<le> r \<and> r + 5 < 64
     \<and> unat (push_bit 20 megabytes) < 2 ^ (r + 5)
     \<and> (\<forall>j. keySize' \<le> j \<and> j < r \<longrightarrow> 2 ^ (j + 5) \<le> unat (push_bit 20 megabytes))"
proof (induction megabytes keySize' rule: keySizeLoop.induct)
  case (1 megabytes keySize')
  let ?M = "unat (push_bit 20 megabytes)"
  have small: "\<not> 64 \<le> keySize' + 5" using "1.prems" by simp
  have pow: "unat (push_bit (keySize' + 5) (1 :: 64 word)) = 2 ^ (keySize' + 5)"
    by (rule unat_push_bit_one) (use "1.prems" in simp)
  show ?case
  proof (cases "push_bit (keySize' + 5) (1 :: 64 word) \<le> push_bit 20 megabytes")
    case True
    then have "unat (push_bit (keySize' + 5) (1 :: 64 word)) \<le> ?M"
      unfolding word_le_nat_alt .
    with pow have le: "2 ^ (keySize' + 5) \<le> ?M"
      by linarith
    from le "1.prems"(2) have "(2::nat) ^ (keySize' + 5) < 2 ^ 63"
      by (rule le_less_trans)
    then have "keySize' + 5 < 63"
      by (rule power_less_imp_less_exp [rotated]) simp
    then have next_ok: "keySize' + 1 + 5 < 64"
      by simp
    from "1.IH" [OF small True next_ok "1.prems"(2)]
    obtain r where r: "keySizeLoop megabytes (keySize' + 1) = Inr r" "keySize' + 1 \<le> r"
      "r + 5 < 64" "?M < 2 ^ (r + 5)"
      "\<forall>j. keySize' + 1 \<le> j \<and> j < r \<longrightarrow> 2 ^ (j + 5) \<le> ?M"
      by blast
    have eq: "keySizeLoop megabytes keySize' = Inr r"
      using small True r(1) by (subst keySizeLoop.simps) simp
    have "\<forall>j. keySize' \<le> j \<and> j < r \<longrightarrow> 2 ^ (j + 5) \<le> ?M"
    proof (intro allI impI)
      fix j assume j: "keySize' \<le> j \<and> j < r"
      show "2 ^ (j + 5) \<le> ?M"
      proof (cases "j = keySize'")
        case True with le show ?thesis by simp
      next
        case False with j r(5) show ?thesis by simp
      qed
    qed
    with eq r show ?thesis by auto
  next
    case False
    then have "\<not> unat (push_bit (keySize' + 5) (1 :: 64 word)) \<le> ?M"
      unfolding word_le_nat_alt .
    with pow have "?M < 2 ^ (keySize' + 5)"
      by linarith
    moreover have "keySizeLoop megabytes keySize' = Inr keySize'"
      using small False by (subst keySizeLoop.simps) simp
    ultimately show ?thesis using "1.prems" by auto
  qed
qed

text \<open>
  Claim C6, the counterexample. A request of \<open>2^44\<close> megabytes is not smaller than 1MB,
  yet \<open>megabytes << 20\<close> wraps to 0, the loop does not run and the table gets \<open>2^15\<close>
  buckets, 1MB, which is not the largest power of two at or below the request.
\<close>

theorem initalizeTranspositionTable_wraps:
  "initalizeTranspositionTable sampleDefs 0x100000000000
     = Inr \<lparr>buckets = replicate (2 ^ 15) (replicate 4 zeroTransEntry), numBuckets = 0x8000,
            keySize = 15, generation = 0, used = 0\<rparr>
   \<and> \<not> tableSizeAsClaimed (unat (0x100000000000 :: 64 word)) (unat (0x8000 :: 64 word))"
proof -
  have loop: "keySizeLoop 0x100000000000 16 = Inr 16"
    by (subst keySizeLoop.simps) simp
  have "\<not> tableSizeAsClaimed (unat (0x100000000000 :: 64 word)) (unat (0x8000 :: 64 word))"
    by (simp add: tableSizeAsClaimed_def)
  moreover have "initalizeTranspositionTable sampleDefs 0x100000000000
     = Inr \<lparr>buckets = replicate (2 ^ 15) (replicate 4 zeroTransEntry), numBuckets = 0x8000,
            keySize = 15, generation = 0, used = 0\<rparr>"
    by (simp add: initalizeTranspositionTable_def sampleDefs_def loop)
  ultimately show ?thesis by (rule conjI [rotated])
qed

text \<open>
  Claim C6, amended. For every request below \<open>2^43\<close> megabytes (so that neither
  \<open>megabytes << 20\<close> wraps nor the loop shifts by 64) \<open>initalizeTranspositionTable\<close> returns a
  table whose number of buckets is a power of two, at least \<open>2^15\<close>, such that the 32-byte
  buckets make the largest power-of-two byte total at or below \<open>megabytes * 2^20\<close>, or 1MB
  for a request smaller than 1MB; every entry is zero and \<open>generation\<close> and \<open>used\<close> are 0.
\<close>

theorem initalizeTranspositionTable_size:
  assumes "sizeof_TransBucket defs = 32" and "unat megabytes < 2 ^ 43"
  shows "\<exists>t. initalizeTranspositionTable defs megabytes = Inr t
           \<and> tableSizeAsClaimed (unat megabytes) (unat (numBuckets t))
           \<and> 2 ^ 15 \<le> unat (numBuckets t)
           \<and> unat (numBuckets t) = 2 ^ keySize t
           \<and> buckets t = replicate (unat (numBuckets t)) (replicate (BUCKET_SIZE defs) zeroTransEntry)
           \<and> generation t = 0 \<and> used t = 0"
proof -
  let ?M = "unat (push_bit 20 megabytes)"
  have M: "?M = unat megabytes * 2 ^ 20"
    using assms(2) by (rule unat_megabytes)
  have "unat megabytes * 2 ^ 20 < 2 ^ 43 * 2 ^ 20"
    using assms(2) by simp
  then have M63: "?M < 2 ^ 63"
    using M by simp
  obtain r where r: "keySizeLoop megabytes 16 = Inr r" "16 \<le> r" "r + 5 < 64" "?M < 2 ^ (r + 5)"
    "\<forall>j. 16 \<le> j \<and> j < r \<longrightarrow> 2 ^ (j + 5) \<le> ?M"
    using keySizeLoop_result [of 16 megabytes] M63 by auto
  define t where "t = \<lparr>buckets = replicate (2 ^ (r - 1)) (replicate (BUCKET_SIZE defs) zeroTransEntry),
               numBuckets = push_bit (r - 1) 1, keySize = r - 1, generation = 0, used = 0\<rparr>"
  have res: "initalizeTranspositionTable defs megabytes = Inr t"
    using assms(1) r(1) by (simp add: initalizeTranspositionTable_def t_def)
  have "unat (push_bit (r - 1) (1 :: 64 word)) = 2 ^ (r - 1)"
    by (rule unat_push_bit_one) (use r(3) in simp)
  then have nb: "unat (numBuckets t) = 2 ^ (r - 1)"
    by (simp add: t_def)
  have bytes: "(2::nat) ^ (r - 1) * 32 = 2 ^ (r + 4)"
  proof -
    have "(32::nat) = 2 ^ 5" by simp
    then have "(2::nat) ^ (r - 1) * 32 = 2 ^ (r - 1 + 5)"
      by (simp only: power_add)
    then show ?thesis using r(2) by simp
  qed
  have "(2::nat) ^ (r + 5) = 2 ^ Suc (r + 4)"
    by simp
  also have "\<dots> = 2 * 2 ^ (r + 4)"
    by (rule power_Suc)
  finally have "(2::nat) ^ (r + 5) = 2 * (2 ^ (r - 1) * 32)"
    by (simp only: bytes)
  with r(4) have "?M < 2 * (2 ^ (r - 1) * 32)"
    by simp
  then have upper: "unat megabytes * 2 ^ 20 < 2 * (2 ^ (r - 1) * 32)"
    by (simp only: M)
  have pow2: "\<exists>k. unat (numBuckets t) = 2 ^ k"
    using nb by blast
  have rest: "if unat megabytes * 2 ^ 20 < 2 ^ 20 then unat (numBuckets t) * 32 = 2 ^ 20
      else unat (numBuckets t) * 32 \<le> unat megabytes * 2 ^ 20
         \<and> unat megabytes * 2 ^ 20 < 2 * (unat (numBuckets t) * 32)"
  proof (cases "r = 16")
    case True
    with upper have "unat megabytes * 2 ^ 20 < 2 * 2 ^ 20" by simp
    then have "unat megabytes < 2" by simp
    then have "unat megabytes = 0 \<or> unat megabytes = 1" by auto
    then show ?thesis
      using True nb by auto
  next
    case False
    with r(2) have prev: "16 \<le> r - 1 \<and> r - 1 < r" by simp
    have shift: "r - 1 + 5 = r + 4"
      using r(2) by simp
    from r(5) prev have "2 ^ (r - 1 + 5) \<le> ?M" by blast
    then have "2 ^ (r + 4) \<le> ?M"
      unfolding shift .
    then have lower: "2 ^ (r - 1) * 32 \<le> unat megabytes * 2 ^ 20"
      by (simp only: bytes M)
    have "(2::nat) ^ 20 \<le> 2 ^ (r + 4)"
      by (rule power_increasing) (use r(2) in simp_all)
    with lower bytes have "\<not> unat megabytes * 2 ^ 20 < 2 ^ 20"
      by linarith
    then show ?thesis
      using lower upper by (simp only: nb if_False simp_thms)
  qed
  have claimed: "tableSizeAsClaimed (unat megabytes) (unat (numBuckets t))"
    unfolding tableSizeAsClaimed_def using pow2 rest by (rule conjI)
  have floor: "(2::nat) ^ 15 \<le> 2 ^ (r - 1)"
    by (rule power_increasing) (use r(2) in simp_all)
  show ?thesis
    using res claimed nb floor by (auto simp: t_def)
qed

theorem initalizeTranspositionTable_size_witness:
  "\<exists>t. initalizeTranspositionTable sampleDefs 5 = Inr t
     \<and> unat (numBuckets t) = 2 ^ 17
     \<and> tableSizeAsClaimed 5 (2 ^ 17)
     \<and> generation t = 0 \<and> used t = 0"
proof -
  have size: "sizeof_TransBucket sampleDefs = 32"
    by (simp add: sampleDefs_def)
  have request: "unat (5 :: 64 word) < 2 ^ 43"
    by simp
  obtain t where t: "initalizeTranspositionTable sampleDefs 5 = Inr t"
    and claimed: "tableSizeAsClaimed (unat (5 :: 64 word)) (unat (numBuckets t))"
    and zero: "generation t = 0" "used t = 0"
    using initalizeTranspositionTable_size [OF size request] by blast
  have "keySizeLoop 5 16 = Inr 18"
    by (simp add: keySizeLoop.simps)
  then have "initalizeTranspositionTable sampleDefs 5 =
      Inr \<lparr>buckets = replicate (2 ^ 17) (replicate 4 zeroTransEntry), numBuckets = push_bit 17 1,
            keySize = 17, generation = 0, used = 0\<rparr>"
    by (simp add: initalizeTranspositionTable_def sampleDefs_def)
  with t have buckets: "unat (numBuckets t) = 2 ^ 17"
    by auto
  with claimed have "tableSizeAsClaimed 5 (2 ^ 17)"
    by simp
  with t buckets zero show ?thesis
    by blast
qed

lemma scanInv_step:
  assumes "scanInv es gen i old low"
  shows "scanInv es gen (Suc i)
     (if age (es ! i) \<noteq> gen \<and>
         (case old of None \<Rightarrow> True | Some old' \<Rightarrow> depth (es ! old') \<ge> depth (es ! i))
      then Some i else old)
     (if (if age (es ! i) \<noteq> gen \<and>
         (case old of None \<Rightarrow> True | Some old' \<Rightarrow> depth (es ! old') \<ge> depth (es ! i))
      then Some i else old) = None \<and>
         (case low of None \<Rightarrow> True | Some low' \<Rightarrow> depth (es ! low') \<ge> depth (es ! i))
      then Some i else low)"
  using assms
  by (auto simp: scanInv_def less_Suc_eq split: option.splits)

lemma storeScan_accept:
  "i \<le> k \<Longrightarrow> k < length es \<Longrightarrow> acceptedAtOnce h (es ! k) \<Longrightarrow>
   \<forall>j. i \<le> j \<and> j < k \<longrightarrow> \<not> acceptedAtOnce h (es ! j) \<Longrightarrow>
   storeScan es gen h i old low = (Some k, if type (es ! k) = 0 then 1 else 0)"
proof (induction es gen h i old low rule: storeScan.induct)
  case (1 es gen h i old low)
  show ?case
  proof (cases "i = k")
    case True
    with "1.prems" show ?thesis
      by (subst storeScan.simps) (auto simp: acceptedAtOnce_def)
  next
    case False
    with "1.prems" have lt: "i < k" "i < length es" and no: "\<not> acceptedAtOnce h (es ! i)"
      by auto
    from no have t: "type (es ! i) \<noteq> 0" and k: "hash16 (es ! i) \<noteq> h"
      by (auto simp: acceptedAtOnce_def)
    have rest: "\<forall>j. i + 1 \<le> j \<and> j < k \<longrightarrow> \<not> acceptedAtOnce h (es ! j)"
      using "1.prems"(4) by auto
    have next_le: "i + 1 \<le> k" using lt by simp
    define old' where "old' =
        (if age (es ! i) \<noteq> gen \<and>
            (case old of None \<Rightarrow> True | Some p \<Rightarrow> depth (es ! p) \<ge> depth (es ! i))
         then Some i else old)"
    define low' where "low' =
        (if old' = None \<and>
            (case low of None \<Rightarrow> True | Some p \<Rightarrow> depth (es ! p) \<ge> depth (es ! i))
         then Some i else low)"
    have "storeScan es gen h (i + 1) old' low' = (Some k, if type (es ! k) = 0 then 1 else 0)"
      unfolding old'_def low'_def
      by (rule "1.IH" [OF lt(2) t k refl refl next_le "1.prems"(2,3) rest])
    moreover have "storeScan es gen h i old low = storeScan es gen h (i + 1) old' low'"
      by (subst storeScan.simps) (simp add: lt t k Let_def old'_def low'_def)
    ultimately show ?thesis by simp
  qed
qed

lemma storeScan_fallthrough:
  "\<forall>j<length es. \<not> acceptedAtOnce h (es ! j) \<Longrightarrow> i \<le> length es \<Longrightarrow>
   scanInv es gen i old low \<Longrightarrow>
   \<exists>old' low'. storeScan es gen h i old low = (if old' \<noteq> None then old' else low', 0)
     \<and> scanInv es gen (length es) old' low'"
proof (induction es gen h i old low rule: storeScan.induct)
  case (1 es gen h i old low)
  show ?case
  proof (cases "i < length es")
    case False
    with "1.prems"(2) have "i = length es" by simp
    moreover have "storeScan es gen h i old low = (if old \<noteq> None then old else low, 0)"
      using False by (subst storeScan.simps) simp
    ultimately show ?thesis using "1.prems"(3) by blast
  next
    case True
    with "1.prems"(1) have no: "\<not> acceptedAtOnce h (es ! i)" by simp
    then have t: "type (es ! i) \<noteq> 0" and k: "hash16 (es ! i) \<noteq> h"
      by (auto simp: acceptedAtOnce_def)
    define old' where "old' =
        (if age (es ! i) \<noteq> gen \<and>
            (case old of None \<Rightarrow> True | Some p \<Rightarrow> depth (es ! p) \<ge> depth (es ! i))
         then Some i else old)"
    define low' where "low' =
        (if old' = None \<and>
            (case low of None \<Rightarrow> True | Some p \<Rightarrow> depth (es ! p) \<ge> depth (es ! i))
         then Some i else low)"
    have inv: "scanInv es gen (i + 1) old' low'"
      unfolding old'_def low'_def using scanInv_step [OF "1.prems"(3)] by simp
    have next_le: "i + 1 \<le> length es" using True by simp
    have "\<exists>old'' low''. storeScan es gen h (i + 1) old' low'
          = (if old'' \<noteq> None then old'' else low'', 0)
        \<and> scanInv es gen (length es) old'' low''"
      using inv unfolding old'_def low'_def
      by (intro "1.IH" [OF True t k refl refl "1.prems"(1) next_le])
    moreover have "storeScan es gen h i old low = storeScan es gen h (i + 1) old' low'"
      by (subst storeScan.simps) (simp add: True t k Let_def old'_def low'_def)
    ultimately show ?thesis by simp
  qed
qed

lemma replacementRule_unique:
  assumes "replacementRule es gen h k" and "replacementRule es gen h k'"
  shows "k' = k"
proof (cases "\<exists>e\<in>set es. acceptedAtOnce h e")
  case True
  with assms have a: "acceptedAtOnce h (es ! k)" "\<forall>j<k. \<not> acceptedAtOnce h (es ! j)"
    and b: "acceptedAtOnce h (es ! k')" "\<forall>j<k'. \<not> acceptedAtOnce h (es ! j)"
    by (simp_all add: replacementRule_def)
  then have "\<not> k' < k" and "\<not> k < k'" by auto
  then show ?thesis by simp
next
  case False
  with assms obtain P where "lowestDepthAmong P es k" and "lowestDepthAmong P es k'"
    by (auto simp: replacementRule_def split: if_splits)
  then have "k \<le> k'" and "k' \<le> k"
    unfolding lowestDepthAmong_def by (metis order_antisym)+
  then show ?thesis by simp
qed

lemma storeScan_rule:
  assumes "es \<noteq> []"
  shows "\<exists>k. storeScan es gen h 0 None None = (Some k, if type (es ! k) = 0 then 1 else 0)
     \<and> replacementRule es gen h k"
proof (cases "\<exists>e\<in>set es. acceptedAtOnce h e")
  case True
  then have ex: "\<exists>j. j < length es \<and> acceptedAtOnce h (es ! j)"
    by (auto simp: in_set_conv_nth)
  define k where "k = (LEAST j. j < length es \<and> acceptedAtOnce h (es ! j))"
  have k: "k < length es \<and> acceptedAtOnce h (es ! k)"
    unfolding k_def using ex by (rule LeastI_ex)
  have first: "\<not> acceptedAtOnce h (es ! j)" if "j < k" for j
    using not_less_Least [of j "\<lambda>j. j < length es \<and> acceptedAtOnce h (es ! j)"] that k
    unfolding k_def by auto
  have "storeScan es gen h 0 None None = (Some k, if type (es ! k) = 0 then 1 else 0)"
    using k first by (intro storeScan_accept) auto
  moreover have "replacementRule es gen h k"
    using True k first by (simp add: replacementRule_def)
  ultimately show ?thesis by blast
next
  case False
  then have none: "\<forall>j<length es. \<not> acceptedAtOnce h (es ! j)"
    using nth_mem by blast
  have "scanInv es gen 0 None None"
    by (simp add: scanInv_def)
  with none obtain old low
    where res: "storeScan es gen h 0 None None = (if old \<noteq> None then old else low, 0)"
      and inv: "scanInv es gen (length es) old low"
    using storeScan_fallthrough [of es h 0 gen None None] by auto
  have pos: "0 < length es" using assms by simp
  show ?thesis
  proof (cases old)
    case (Some p)
    with inv have p: "lowestDepthAmong (\<lambda>e. age e \<noteq> gen) es p"
      by (simp add: scanInv_def lowestDepthAmong_def)
    then have "\<exists>e\<in>set es. age e \<noteq> gen"
      by (auto simp: lowestDepthAmong_def)
    with False p have "replacementRule es gen h p"
      by (simp add: replacementRule_def)
    moreover have "type (es ! p) \<noteq> 0"
      using none p by (auto simp: lowestDepthAmong_def acceptedAtOnce_def)
    ultimately show ?thesis using res Some by auto
  next
    case None
    with inv pos obtain l where l: "low = Some l" and fresh: "\<forall>j<length es. age (es ! j) = gen"
      and least: "l < length es" "\<forall>j<length es. depth (es ! l) \<le> depth (es ! j)
                                  \<and> (depth (es ! j) = depth (es ! l) \<longrightarrow> j \<le> l)"
      by (auto simp: scanInv_def split: option.splits)
    have "lowestDepthAmong (\<lambda>e. age e = gen) es l"
      using fresh least by (simp add: lowestDepthAmong_def)
    moreover have "\<not> (\<exists>e\<in>set es. age e \<noteq> gen)"
      using fresh by (auto simp: in_set_conv_nth)
    ultimately have "replacementRule es gen h l"
      using False by (simp add: replacementRule_def)
    moreover have "type (es ! l) \<noteq> 0"
      using none least(1) by (auto simp: acceptedAtOnce_def)
    ultimately show ?thesis using res None l by auto
  qed
qed

lemma bucketIndex_less:
  assumes "numBuckets table \<noteq> 0"
  shows "bucketIndex table hash < unat (numBuckets table)"
proof -
  have "hash AND (numBuckets table - 1) \<le> numBuckets table - 1"
    by (rule word_and_le1)
  moreover have "numBuckets table - 1 < numBuckets table"
    using assms by (simp add: word_less_nat_alt unat_minus_one unat_gt_0)
  ultimately have "hash AND (numBuckets table - 1) < numBuckets table"
    by simp
  then show ?thesis
    by (simp add: bucketIndex_def word_less_nat_alt)
qed

lemma validTable_bucket:
  assumes "validTable table"
  shows "bucketIndex table hash < length (buckets table)"
    and "buckets table ! bucketIndex table hash \<noteq> []"
proof -
  show less: "bucketIndex table hash < length (buckets table)"
    using assms bucketIndex_less [of table hash] by (simp add: validTable_def)
  then show "buckets table ! bucketIndex table hash \<noteq> []"
    using assms nth_mem unfolding validTable_def by blast
qed

lemma probeLoop_first:
  "i \<le> k \<Longrightarrow> k < length es \<Longrightarrow> hash16 (es ! k) = h \<Longrightarrow>
   \<forall>j. i \<le> j \<and> j < k \<longrightarrow> hash16 (es ! j) \<noteq> h \<Longrightarrow> probeLoop es h i = Some k"
proof (induction es h i rule: probeLoop.induct)
  case (1 es h i)
  show ?case
  proof (cases "i = k")
    case True
    with "1.prems" show ?thesis
      by (subst probeLoop.simps) simp
  next
    case False
    with "1.prems" have lt: "i < k" "i < length es" and no: "hash16 (es ! i) \<noteq> h"
      by auto
    have "probeLoop es h (i + 1) = Some k"
      using "1.prems" lt by (intro "1.IH" [OF lt(2) no]) auto
    then show ?thesis
      using lt no by (subst probeLoop.simps) simp
  qed
qed

lemma storeTranspositionEntry_result:
  assumes depth_ok: "0 \<le> d \<and> d < MAX_DEPTH defs"
    and type_ok: "ty = PVNODE defs \<or> ty = CUTNODE defs \<or> ty = ALLNODE defs"
    and value_ok: "- MATE defs \<le> v \<and> v \<le> MATE defs"
    and table_ok: "validTable table"
  shows "\<exists>k. replacementRule (buckets table ! bucketIndex table hash) (generation table)
              (hashKey hash) k
     \<and> storeTranspositionEntry defs table d ty v bm hash =
         Inr (table\<lparr>used := used table
                      + (if type (buckets table ! bucketIndex table hash ! k) = 0 then 1 else 0),
                    buckets := (buckets table)
                      [bucketIndex table hash := (buckets table ! bucketIndex table hash)
                         [k := \<lparr>hash16 = hashKey hash, value' = asValue defs v, depth = asDepth defs d,
                                age = asAge defs (generation table), type = asType defs ty,
                                bestMove = asBestMove defs bm\<rparr>]]\<rparr>)"
proof -
  let ?es = "buckets table ! bucketIndex table hash"
  have "?es \<noteq> []"
    using table_ok by (rule validTable_bucket)
  then obtain k where scan: "storeScan ?es (generation table) (hashKey hash) 0 None None
      = (Some k, if type (?es ! k) = 0 then 1 else 0)"
    and rule: "replacementRule ?es (generation table) (hashKey hash) k"
    using storeScan_rule by blast
  have "storeTranspositionEntry defs table d ty v bm hash =
         Inr (table\<lparr>used := used table + (if type (?es ! k) = 0 then 1 else 0),
                    buckets := (buckets table)
                      [bucketIndex table hash := ?es
                         [k := \<lparr>hash16 = hashKey hash, value' = asValue defs v, depth = asDepth defs d,
                                age = asAge defs (generation table), type = asType defs ty,
                                bestMove = asBestMove defs bm\<rparr>]]\<rparr>)"
    using depth_ok type_ok value_ok
    by (simp add: storeTranspositionEntry_def Let_def scan)
  with rule show ?thesis by blast
qed

text \<open>The tables the program makes are valid, and a store keeps them so.\<close>

lemma initalizeTranspositionTable_valid:
  assumes "sizeof_TransBucket defs = 32" and "unat megabytes < 2 ^ 43" and "0 < BUCKET_SIZE defs"
  shows "\<exists>t. initalizeTranspositionTable defs megabytes = Inr t \<and> validTable t"
proof -
  have "unat (push_bit 20 megabytes) = unat megabytes * 2 ^ 20"
    using assms(2) by (rule unat_megabytes)
  moreover have "unat megabytes * 2 ^ 20 < 2 ^ 43 * 2 ^ 20"
    using assms(2) by simp
  ultimately have "unat (push_bit 20 megabytes) < 2 ^ 63"
    by simp
  then obtain r where r: "keySizeLoop megabytes 16 = Inr r" "16 \<le> r" "r + 5 < 64"
    using keySizeLoop_result [of 16 megabytes] by auto
  define t where "t = \<lparr>buckets = replicate (2 ^ (r - 1)) (replicate (BUCKET_SIZE defs) zeroTransEntry),
               numBuckets = push_bit (r - 1) 1, keySize = r - 1, generation = 0, used = 0\<rparr>"
  have res: "initalizeTranspositionTable defs megabytes = Inr t"
    using assms(1) r(1) by (simp add: initalizeTranspositionTable_def t_def)
  have nb: "unat (push_bit (r - 1) (1 :: 64 word)) = 2 ^ (r - 1)"
    by (rule unat_push_bit_one) (use r(3) in simp)
  then have "unat (numBuckets t) \<noteq> 0"
    by (simp only: t_def) simp
  then have "numBuckets t \<noteq> 0"
    by (simp add: unat_0_iff)
  moreover have "length (buckets t) = unat (numBuckets t)"
    using nb by (simp add: t_def)
  moreover have "\<forall>bucket\<in>set (buckets t). bucket \<noteq> []"
    using assms(3) by (auto simp: t_def)
  ultimately have "validTable t"
    by (simp add: validTable_def)
  with res show ?thesis by blast
qed

lemma storeTranspositionEntry_valid:
  assumes "validTable table" and "storeTranspositionEntry defs table d ty v bm hash = Inr table'"
  shows "validTable table'"
proof -
  from assms(2) obtain k n where "table' = table\<lparr>used := used table + n,
      buckets := (buckets table)[bucketIndex table hash :=
        (buckets table ! bucketIndex table hash)
          [k := \<lparr>hash16 = hashKey hash, value' = asValue defs v, depth = asDepth defs d,
                 age = asAge defs (generation table), type = asType defs ty,
                 bestMove = asBestMove defs bm\<rparr>]]\<rparr>"
    by (auto simp: storeTranspositionEntry_def Let_def split: if_splits prod.splits option.splits)
  then show ?thesis
    using assms(1) by (auto simp: validTable_def dest!: set_update_subset_insert [THEN subsetD])
      (metis length_0_conv length_list_update nth_mem validTable_bucket(1) assms(1))
qed

text \<open>
  Claim C3, amended. Every call of \<open>storeTranspositionEntry\<close> with \<open>0 \<le> depth < MAX_DEPTH\<close>,
  a valid node type and \<open>|value| \<le> MATE\<close> overwrites exactly one entry of the indexed bucket
  and changes nothing else but \<open>used\<close>; the entry written holds the key and the arguments
  and the generation as converted to its fields. The entry is fixed by one scan in entry order: the
  first entry that is unused (\<open>type = 0\<close>, and then \<open>used\<close> is incremented) or whose key
  equals the top 16 bits of the hash, whichever comes first; if there is none, the
  lowest-depth entry among those of another generation; if there is none either, the
  lowest-depth entry among the entries, all of the current generation.
\<close>

theorem storeTranspositionEntry_replaces_one:
  assumes depth_ok: "0 \<le> d \<and> d < MAX_DEPTH defs"
    and type_ok: "ty = PVNODE defs \<or> ty = CUTNODE defs \<or> ty = ALLNODE defs"
    and value_ok: "- MATE defs \<le> v \<and> v \<le> MATE defs"
    and table_ok: "validTable table"
  shows "\<exists>k. replacementRule (buckets table ! bucketIndex table hash) (generation table)
              (hashKey hash) k
     \<and> (\<forall>k'. replacementRule (buckets table ! bucketIndex table hash) (generation table)
              (hashKey hash) k' \<longrightarrow> k' = k)
     \<and> storeTranspositionEntry defs table d ty v bm hash =
         Inr (table\<lparr>used := used table
                      + (if type (buckets table ! bucketIndex table hash ! k) = 0 then 1 else 0),
                    buckets := (buckets table)
                      [bucketIndex table hash := (buckets table ! bucketIndex table hash)
                         [k := \<lparr>hash16 = hashKey hash, value' = asValue defs v, depth = asDepth defs d,
                                age = asAge defs (generation table), type = asType defs ty,
                                bestMove = asBestMove defs bm\<rparr>]]\<rparr>)"
proof -
  let ?es = "buckets table ! bucketIndex table hash"
  obtain k where rule: "replacementRule ?es (generation table) (hashKey hash) k"
    and store: "storeTranspositionEntry defs table d ty v bm hash =
         Inr (table\<lparr>used := used table + (if type (?es ! k) = 0 then 1 else 0),
                    buckets := (buckets table)
                      [bucketIndex table hash := ?es
                         [k := \<lparr>hash16 = hashKey hash, value' = asValue defs v, depth = asDepth defs d,
                                age = asAge defs (generation table), type = asType defs ty,
                                bestMove = asBestMove defs bm\<rparr>]]\<rparr>)"
    using storeTranspositionEntry_result [OF assms, where hash = hash and bm = bm] by blast
  have "\<forall>k'. replacementRule ?es (generation table) (hashKey hash) k' \<longrightarrow> k' = k"
    using rule replacementRule_unique by blast
  with rule store show ?thesis by blast
qed

lemma replacementRule_key:
  assumes "replacementRule es gen h k"
  shows "k < length es" and "\<forall>j<k. hash16 (es ! j) \<noteq> h"
proof -
  show k: "k < length es"
    using assms by (auto simp: replacementRule_def lowestDepthAmong_def split: if_splits)
  show "\<forall>j<k. hash16 (es ! j) \<noteq> h"
  proof (cases "\<exists>e\<in>set es. acceptedAtOnce h e")
    case True
    with assms show ?thesis
      by (auto simp: replacementRule_def acceptedAtOnce_def)
  next
    case False
    then have "\<forall>j<length es. \<not> acceptedAtOnce h (es ! j)"
      using nth_mem by blast
    with k show ?thesis
      by (auto simp: acceptedAtOnce_def)
  qed
qed

text \<open>
  Store, then probe, whatever the conversions are: the probe finds the entry the store
  wrote, with the stored numbers as the fields hold them, and changes nothing.
\<close>

lemma store_then_probe_converted:
  assumes depth_ok: "0 \<le> d \<and> d < MAX_DEPTH defs"
    and type_ok: "ty = PVNODE defs \<or> ty = CUTNODE defs \<or> ty = ALLNODE defs"
    and value_ok: "- MATE defs \<le> v \<and> v \<le> MATE defs"
    and table_ok: "validTable table"
    and build: "\<not> TEXEL"
  shows "\<exists>table' b i. storeTranspositionEntry defs table d ty v bm hash = Inr table'
     \<and> getTranspositionEntry defs TEXEL table' hash = (table', Some (b, i))
     \<and> b < length (buckets table') \<and> i < length (buckets table' ! b)
     \<and> buckets table' ! b ! i =
         \<lparr>hash16 = hashKey hash, value' = asValue defs v, depth = asDepth defs d,
          age = asAge defs (generation table'), type = asType defs ty,
          bestMove = asBestMove defs bm\<rparr>
     \<and> generation table' = generation table"
proof -
  let ?b = "bucketIndex table hash"
  let ?es = "buckets table ! ?b"
  let ?new = "\<lparr>hash16 = hashKey hash, value' = asValue defs v, depth = asDepth defs d,
               age = asAge defs (generation table), type = asType defs ty,
               bestMove = asBestMove defs bm\<rparr>"
  obtain k where rule: "replacementRule ?es (generation table) (hashKey hash) k"
    and store: "storeTranspositionEntry defs table d ty v bm hash =
         Inr (table\<lparr>used := used table + (if type (?es ! k) = 0 then 1 else 0),
                    buckets := (buckets table)[?b := ?es[k := ?new]]\<rparr>)"
    using storeTranspositionEntry_result [OF depth_ok type_ok value_ok table_ok,
        where hash = hash and bm = bm]
    by blast
  define table' where "table' = table\<lparr>used := used table + (if type (?es ! k) = 0 then 1 else 0),
                    buckets := (buckets table)[?b := ?es[k := ?new]]\<rparr>"
  have b: "?b < length (buckets table)"
    using table_ok by (rule validTable_bucket)
  have k: "k < length ?es" and before: "\<forall>j<k. hash16 (?es ! j) \<noteq> hashKey hash"
    using replacementRule_key [OF rule] by simp_all
  have idx: "bucketIndex table' hash = ?b"
    by (simp add: table'_def bucketIndex_def)
  have bucket: "buckets table' ! ?b = ?es[k := ?new]"
    using b by (simp add: table'_def)
  have "probeLoop (?es[k := ?new]) (hashKey hash) 0 = Some k"
    using k before by (intro probeLoop_first) auto
  then have probe: "probeLoop (buckets table' ! ?b) (hashKey hash) 0 = Some k"
    by (simp only: bucket)
  have gen: "generation table' = generation table"
    by (simp add: table'_def)
  have entry: "buckets table' ! ?b ! k =
         \<lparr>hash16 = hashKey hash, value' = asValue defs v, depth = asDepth defs d,
          age = asAge defs (generation table'), type = asType defs ty,
          bestMove = asBestMove defs bm\<rparr>"
    using k by (simp add: bucket gen)
  have same: "table'\<lparr>buckets := (buckets table')
       [?b := (buckets table' ! ?b)
          [k := (buckets table' ! ?b ! k)\<lparr>age := asAge defs (generation table')\<rparr>]]\<rparr>
       = table'"
  proof -
    have "(buckets table' ! ?b ! k)\<lparr>age := asAge defs (generation table')\<rparr>
        = buckets table' ! ?b ! k"
      by (simp add: entry)
    then have "(buckets table' ! ?b)
          [k := (buckets table' ! ?b ! k)\<lparr>age := asAge defs (generation table')\<rparr>]
        = buckets table' ! ?b"
      by (simp only: list_update_id)
    then have "(buckets table')
       [?b := (buckets table' ! ?b)
          [k := (buckets table' ! ?b ! k)\<lparr>age := asAge defs (generation table')\<rparr>]]
        = buckets table'"
      by (simp only: list_update_id)
    then show ?thesis
      by simp
  qed
  have get: "getTranspositionEntry defs TEXEL table' hash = (table', Some (?b, k))"
    using build by (simp add: getTranspositionEntry_def Let_def idx probe same)
  have b': "?b < length (buckets table')"
    using b by (simp add: table'_def)
  have k': "k < length (buckets table' ! ?b)"
    using k by (simp add: bucket)
  from store have "storeTranspositionEntry defs table d ty v bm hash = Inr table'"
    by (simp only: table'_def)
  with get b' k' entry gen show ?thesis
    by (metis (no_types))
qed


lemma sample_index: "bucketIndex sampleTable 0xABCD000000000001 = 1"
  by (simp add: bucketIndex_def sampleTable_def)

lemma sample_key: "hashKey 0xABCD000000000001 = 0xABCD"
  by (simp add: hashKey_def)

lemma sample_valid: "validTable sampleTable"
  by (simp add: validTable_def sampleTable_def sampleBucket_def)

text \<open>
  Claim C3, the counterexample. The first entry of the bucket holds the key and the
  second is unused. The store overwrites the first entry and leaves \<open>used\<close> and the unused
  entry alone, where "the first unused entry if one exists" names the second.
\<close>

theorem storeTranspositionEntry_key_before_unused:
  "storeTranspositionEntry sampleDefs sampleTable 3 1 20 9 0xABCD000000000001 =
     Inr (sampleTable\<lparr>buckets :=
       [replicate 4 zeroTransEntry,
        [\<lparr>hash16 = 0xABCD, value' = 20, depth = 3, age = 0, type = 1, bestMove = 9\<rparr>,
         zeroTransEntry, zeroTransEntry, zeroTransEntry]]\<rparr>)
   \<and> replacementRuleAsClaimed sampleBucket 0 0xABCD 1
   \<and> \<not> replacementRuleAsClaimed sampleBucket 0 0xABCD 0"
proof -
  have scan: "storeScan sampleBucket 0 0xABCD 0 None None = (Some 0, 0)"
    by (simp add: storeScan.simps sampleBucket_def)
  have "storeTranspositionEntry sampleDefs sampleTable 3 1 20 9 0xABCD000000000001 =
     Inr (sampleTable\<lparr>buckets :=
       [replicate 4 zeroTransEntry,
        [\<lparr>hash16 = 0xABCD, value' = 20, depth = 3, age = 0, type = 1, bestMove = 9\<rparr>,
         zeroTransEntry, zeroTransEntry, zeroTransEntry]]\<rparr>)"
    by (simp add: storeTranspositionEntry_def Let_def sample_index sample_key sampleDefs_def)
       (simp add: sampleTable_def scan, simp add: sampleBucket_def)
  moreover have "replacementRuleAsClaimed sampleBucket 0 0xABCD 1"
    by (simp add: replacementRuleAsClaimed_def sampleBucket_def zeroTransEntry_def)
  moreover have "\<not> replacementRuleAsClaimed sampleBucket 0 0xABCD 0"
    by (simp add: replacementRuleAsClaimed_def sampleBucket_def zeroTransEntry_def)
  ultimately show ?thesis by blast
qed

lemma sample_args:
  "0 \<le> (3::int) \<and> 3 < MAX_DEPTH sampleDefs"
  "(1::int) = PVNODE sampleDefs \<or> 1 = CUTNODE sampleDefs \<or> 1 = ALLNODE sampleDefs"
  "- MATE sampleDefs \<le> 20 \<and> 20 \<le> MATE sampleDefs"
  by (simp_all add: sampleDefs_def)

lemma sample_fields:
  "asValue sampleDefs 20 = 20" "asDepth sampleDefs 3 = 3" "asType sampleDefs 1 = 1"
  "asBestMove sampleDefs 9 = 9" "asAge sampleDefs 0 = 0"
  by (simp_all add: sampleDefs_def)

theorem storeTranspositionEntry_replaces_one_witness:
  "\<exists>k. replacementRule sampleBucket 0 0xABCD k
     \<and> storeTranspositionEntry sampleDefs sampleTable 3 1 20 9 0xABCD000000000001 =
         Inr (sampleTable\<lparr>used := 1 + (if type (sampleBucket ! k) = 0 then 1 else 0),
               buckets := [replicate 4 zeroTransEntry,
                  sampleBucket[k := \<lparr>hash16 = 0xABCD, value' = 20, depth = 3, age = 0,
                                     type = 1, bestMove = 9\<rparr>]]\<rparr>)"
proof -
  have bucket: "buckets sampleTable ! 1 = sampleBucket"
    and gen: "generation sampleTable = 0" and used: "used sampleTable = 1"
    and upd: "\<And>b. (buckets sampleTable)[1 := b] = [replicate 4 zeroTransEntry, b]"
    by (simp_all add: sampleTable_def)
  from storeTranspositionEntry_replaces_one [OF sample_args sample_valid,
      where hash = "0xABCD000000000001" and bm = 9]
  obtain k where "replacementRule sampleBucket 0 0xABCD k"
    and "storeTranspositionEntry sampleDefs sampleTable 3 1 20 9 0xABCD000000000001 =
         Inr (sampleTable\<lparr>used := 1 + (if type (sampleBucket ! k) = 0 then 1 else 0),
               buckets := [replicate 4 zeroTransEntry,
                  sampleBucket[k := \<lparr>hash16 = 0xABCD, value' = 20, depth = 3, age = 0,
                                     type = 1, bestMove = 9\<rparr>]]\<rparr>)"
    unfolding sample_index sample_key bucket gen used upd sample_fields by blast
  then show ?thesis by blast
qed


text \<open>
  Without the fit the round trip fails: with a best-move field of 16 bits, the best move
  65545 stored on the same table comes back as 9.
\<close>

lemma store_then_probe_narrows:
  "\<exists>table' b i. storeTranspositionEntry sampleDefs sampleTable 3 1 20 65545 0xABCD000000000001
         = Inr table'
     \<and> getTranspositionEntry sampleDefs False table' 0xABCD000000000001
         = (table', Some (b, i))
     \<and> bestMove (buckets table' ! b ! i) = 9"
proof -
  have build: "\<not> False" by simp
  have narrow: "asBestMove sampleDefs 65545 = 9"
    by (simp add: sampleDefs_def)
  from store_then_probe_converted [OF sample_args sample_valid build,
      where hash = "0xABCD000000000001" and bm = 65545]
  obtain table' b i
    where "storeTranspositionEntry sampleDefs sampleTable 3 1 20 65545 0xABCD000000000001
         = Inr table'"
      and "getTranspositionEntry sampleDefs False table' 0xABCD000000000001
         = (table', Some (b, i))"
      and "bestMove (buckets table' ! b ! i) = asBestMove sampleDefs 65545"
    by fastforce
  then show ?thesis
    unfolding narrow by blast
qed

section \<open>Properties of move generation and of the legality filter\<close>

lemma getLSB_Some: "getLSB bb = Some n \<Longrightarrow> bit bb n \<and> n < 64"
  by (auto simp: getLSB_def find_Some_iff)

lemma getLSB_zero: "getLSB 0 = None"
  by (simp add: getLSB_def find_None_iff)

lemma getLSB_nonzero:
  assumes "bb \<noteq> 0"
  shows "\<exists>n. getLSB bb = Some n"
proof -
  from assms obtain n where n: "bit bb n"
    by (auto simp: bit_eq_iff)
  then have "n < 64"
    using bit_imp_le_length [OF n] by simp
  with n have "\<exists>x\<in>set [0..<64]. bit bb x"
    by auto
  then have "List.find (bit bb) [0..<64] \<noteq> None"
    unfolding find_None_iff by blast
  then show ?thesis
    by (auto simp: getLSB_def)
qed

lemma forEachBit_zero: "forEachBit body 0 s = s"
  by (subst forEachBit.simps) simp

lemma forEachBit_subset_rule:
  "(\<And>n s. n < 64 \<Longrightarrow> bit bb n \<Longrightarrow> P s \<Longrightarrow> P (body n s)) \<Longrightarrow>
   (\<forall>n. bit bb' n \<longrightarrow> bit bb n) \<Longrightarrow> P s \<Longrightarrow> P (forEachBit body bb' s)"
proof (induction body bb' s rule: forEachBit.induct)
  case (1 body bb' s)
  show ?case
  proof (cases "bb' = 0")
    case True
    with "1.prems" show ?thesis by (simp add: forEachBit_zero)
  next
    case False
    then obtain lsb where lsb: "getLSB bb' = Some lsb"
      using getLSB_nonzero by blast
    then have b: "bit bb' lsb" "lsb < 64"
      using getLSB_Some by auto
    have here: "P (body lsb s)"
      using "1.prems"(1) [of lsb s] "1.prems"(2,3) b by blast
    have sub: "\<forall>n. bit (bb' XOR push_bit lsb 1) n \<longrightarrow> bit bb n"
      using "1.prems"(2) b by (auto simp: bit_simps)
    have "P (forEachBit body (bb' XOR push_bit lsb 1) (body lsb s))"
      using "1.prems"(1) sub here by (rule "1.IH" [OF False lsb])
    then show ?thesis
      using False lsb by (subst forEachBit.simps) simp
  qed
qed

lemma forEachBit_rule:
  assumes "P s" and "\<And>n s. n < 64 \<Longrightarrow> bit bb n \<Longrightarrow> P s \<Longrightarrow> P (body n s)"
  shows "P (forEachBit body bb s)"
proof (rule forEachBit_subset_rule [where bb = bb and bb' = bb and P = P])
  show "P (body n s)" if "n < 64" "bit bb n" "P s" for n s
    using that by (rule assms(2))
  show "\<forall>n. bit bb n \<longrightarrow> bit bb n"
    by blast
  show "P s"
    by (rule assms(1))
qed

lemma emits_refl: "emits Q moves moves"
  by (simp add: emits_def)

lemma emits_snoc: "Q m \<Longrightarrow> emits Q moves moves' \<Longrightarrow> emits Q moves (moves' @ [m])"
  by (auto simp: emits_def)

lemma emits_trans: "emits Q a b \<Longrightarrow> emits Q b c \<Longrightarrow> emits Q a c"
  by (auto simp: emits_def)

lemma emits_mono: "emits Q a b \<Longrightarrow> (\<And>m. Q m \<Longrightarrow> Q' m) \<Longrightarrow> emits Q' a b"
  by (auto simp: emits_def)

lemma emits_set: "emits Q a b \<Longrightarrow> m \<in> set b \<Longrightarrow> m \<in> set a \<or> Q m"
  by (auto simp: emits_def)

text \<open>The inner loop of a generator: one move per destination bit.\<close>

lemma forEachBit_emits:
  assumes "\<And>lsb. lsb < 64 \<Longrightarrow> bit bb lsb \<Longrightarrow> Q (mk lsb)"
  shows "emits Q moves (forEachBit (\<lambda>lsb moves. moves @ [mk lsb]) bb moves)"
  by (rule forEachBit_rule [where P = "emits Q moves"])
     (auto intro: emits_refl emits_snoc assms)

text \<open>The outer loop: one inner loop per origin bit.\<close>

lemma forEachBit_emits_nested:
  assumes "\<And>n moves'. n < 64 \<Longrightarrow> bit bb n \<Longrightarrow> emits Q moves' (body n moves')"
  shows "emits Q moves (forEachBit body bb moves)"
  by (rule forEachBit_rule [where P = "emits Q moves"])
     (auto intro: emits_refl emits_trans assms)

lemma moveOK_normal:
  "s \<noteq> e \<Longrightarrow> \<not> isPromotion t \<Longrightarrow>
   moveOK \<lparr>Start = Some s, End = Some e, CapturedType = c, MovedType = p, Type = t\<rparr>"
  by (simp add: moveOK_def startEndDiffer_def)

lemma moveOK_castle:
  "isCastle t \<Longrightarrow> \<not> isPromotion t \<Longrightarrow>
   moveOK \<lparr>Start = s, End = e, CapturedType = c, MovedType = p, Type = t\<rparr>"
  by (simp add: moveOK_def)

lemma origin_not_destination:
  assumes "bit (x AND friendly) n" and "bit (y AND NOT friendly) lsb"
  shows "int n \<noteq> int lsb"
  using assms by (auto simp: bit_simps)

lemma getKnightMoves_emits: "emits moveOK moves (getKnightMoves board moves turn)"
  unfolding getKnightMoves_def Let_def
  by (intro forEachBit_emits_nested forEachBit_emits moveOK_normal origin_not_destination) auto

lemma getBishopMoves_emits: "emits moveOK moves (getBishopMoves board moves turn)"
  unfolding getBishopMoves_def Let_def
  by (intro forEachBit_emits_nested forEachBit_emits moveOK_normal origin_not_destination) auto

lemma getRookMoves_emits: "emits moveOK moves (getRookMoves board moves turn)"
  unfolding getRookMoves_def Let_def
  by (intro forEachBit_emits_nested forEachBit_emits moveOK_normal origin_not_destination) auto

lemma getQueenMoves_emits: "emits moveOK moves (getQueenMoves board moves turn)"
  unfolding getQueenMoves_def Let_def
  by (intro forEachBit_emits_nested emits_trans [OF forEachBit_emits forEachBit_emits]
        moveOK_normal origin_not_destination) auto

lemma getPawnMoves_emits: "emits moveOK moves (getPawnMoves defs board moves turn)"
  unfolding getPawnMoves_def Let_def
  by (intro emits_trans [OF forEachBit_emits emits_trans [OF forEachBit_emits
        emits_trans [OF forEachBit_emits forEachBit_emits]]] moveOK_normal) auto

lemma getKingMoves_emits:
  assumes "getKingMoves defs board moves turn = Inr moves'"
  shows "emits moveOK moves moves'"
proof (cases "Pieces board KING AND (if Colors board turn = 0 then 1 else 0) \<noteq> 0")
  case True
  with assms have "moves' = moves"
    by (simp add: getKingMoves_def Let_def)
  then show ?thesis
    by (simp add: emits_refl)
next
  case False
  with assms obtain bit' where lsb: "getLSB (Pieces board KING AND Colors board turn) = Some bit'"
    by (auto simp: getKingMoves_def Let_def split: option.splits)
  then have origin: "bit (Pieces board KING AND Colors board turn) bit'"
    using getLSB_Some by blast
  define ty where "ty =
     (if ValidCastles board turn 0 \<noteq> 0 then
        (if ValidCastles board turn 1 \<noteq> 0 then BreaksBothCastlesMove else BreaksLeftCastleMove)
      else if ValidCastles board turn 1 \<noteq> 0 then BreaksRightCastleMove
      else NormalMove)"
  define moves1 where "moves1 = forEachBit (\<lambda>lsb moves. moves @
       [\<lparr>Start = Some (int bit'), End = Some (int lsb),
         CapturedType = Some (getSquare lsb board), MovedType = Some KING, Type = ty\<rparr>])
       (KingMap board bit' AND NOT (Colors board turn)) moves"
  have ty: "\<not> isPromotion ty"
    by (simp add: ty_def)
  have one: "emits moveOK moves moves1"
    unfolding moves1_def
    by (intro forEachBit_emits moveOK_normal origin_not_destination [OF origin] ty)
  define condL where "condL \<longleftrightarrow> ValidCastles board turn 0 = 1 \<and>
      (Colors board WHITE OR Colors board BLACK)
        AND (if LeftCastleBoards defs turn = 0 then 1 else 0) \<noteq> 0"
  define condR where "condR \<longleftrightarrow> ValidCastles board turn 1 = 1 \<and>
      (Colors board WHITE OR Colors board BLACK)
        AND (if RightCastleBoards defs turn = 0 then 1 else 0) \<noteq> 0"
  define moves2 where "moves2 =
      (if condL then moves1 @ [\<lparr>Start = None, End = None, CapturedType = None,
                                 MovedType = None, Type = LeftCastleMove\<rparr>] else moves1)"
  define moves3 where "moves3 =
      (if condR then moves2 @ [\<lparr>Start = None, End = None, CapturedType = None,
                                 MovedType = None, Type = RightCastleMove\<rparr>] else moves2)"
  have "getKingMoves defs board moves turn
      = Inr (if Castled board turn = 0 then moves3 else moves1)"
    using False lsb
    by (auto simp: getKingMoves_def Let_def moves3_def moves2_def condR_def condL_def
          moves1_def ty_def)
  with assms have result: "moves' = (if Castled board turn = 0 then moves3 else moves1)"
    by simp
  have two: "emits moveOK moves moves2"
    unfolding moves2_def using one by (auto intro!: emits_snoc moveOK_castle)
  have three: "emits moveOK moves moves3"
    unfolding moves3_def using two by (auto intro!: emits_snoc moveOK_castle)
  show ?thesis
    using one three by (simp add: result)
qed

lemma getKnightMoves_none:
  "Pieces board KNIGHT AND Colors board turn = 0 \<Longrightarrow> getKnightMoves board moves turn = moves"
  by (simp add: getKnightMoves_def forEachBit_zero)

lemma getBishopMoves_none:
  "Pieces board BISHOP AND Colors board turn = 0 \<Longrightarrow> getBishopMoves board moves turn = moves"
  by (simp add: getBishopMoves_def forEachBit_zero)

lemma getRookMoves_none:
  "Pieces board ROOK AND Colors board turn = 0 \<Longrightarrow> getRookMoves board moves turn = moves"
  by (simp add: getRookMoves_def forEachBit_zero)

lemma getQueenMoves_none:
  "Pieces board QUEEN AND Colors board turn = 0 \<Longrightarrow> getQueenMoves board moves turn = moves"
  by (simp add: getQueenMoves_def forEachBit_zero)

lemma getPawnMoves_none:
  "Pieces board PAWN AND Colors board turn = 0 \<Longrightarrow> getPawnMoves defs board moves turn = moves"
  by (simp add: getPawnMoves_def forEachBit_zero)

lemma validateMove_defined:
  assumes "Colors board turn AND Pieces board KING \<noteq> 0"
  shows "validateMove defs board turn = Inr 0 \<or> validateMove defs board turn = Inr 1"
proof -
  obtain kingSquare where "getLSB (Colors board turn AND Pieces board KING) = Some kingSquare"
    using getLSB_nonzero [OF assms] by blast
  then show ?thesis
    by (simp add: validateMove_def Let_def)
qed

lemma validateCheckLoop_subset:
  "validateCheckLoop defs A R board moves turn fixed = Inr (fixed', board') \<Longrightarrow>
   set fixed' \<subseteq> set fixed \<union> set moves"
proof (induction moves arbitrary: board fixed)
  case Nil
  then show ?case by simp
next
  case (Cons m moves)
  then show ?case
    by (fastforce simp: Let_def split: sum.splits if_splits)
qed

lemma validateCheckLoop_filter:
  assumes "\<forall>m\<in>set moves. R (A board m turn) m turn = board"
    and "\<forall>m\<in>set moves. Colors (A board m turn) turn AND Pieces (A board m turn) KING \<noteq> 0"
  shows "validateCheckLoop defs A R board moves turn fixed =
           Inr (fixed @ filter (\<lambda>m. validateMove defs (A board m turn) turn = Inr 1) moves, board)"
  using assms
proof (induction moves arbitrary: fixed)
  case Nil
  then show ?case by simp
next
  case (Cons m moves)
  have restored: "R (A board m turn) m turn = board"
    using Cons.prems(1) by simp
  have "validateMove defs (A board m turn) turn = Inr 0
      \<or> validateMove defs (A board m turn) turn = Inr 1"
    using Cons.prems(2) by (intro validateMove_defined) simp
  then show ?case
  proof
    assume no: "validateMove defs (A board m turn) turn = Inr 0"
    have "validateCheckLoop defs A R board (m # moves) turn fixed
        = validateCheckLoop defs A R board moves turn fixed"
      by (simp add: no restored)
    then show ?thesis
      using Cons.IH [of fixed] Cons.prems by (simp add: no)
  next
    assume yes: "validateMove defs (A board m turn) turn = Inr 1"
    have "validateCheckLoop defs A R board (m # moves) turn fixed
        = validateCheckLoop defs A R board moves turn (fixed @ [m])"
      by (simp add: yes restored)
    then show ?thesis
      using Cons.IH [of "fixed @ [m]"] Cons.prems by (simp add: yes)
  qed
qed

text \<open>
  Claim C1. Where apply and revert are inverse on the candidates (the board's contract),
  the mover still has a king after each candidate, and the candidates fit the buffer of 256,
  \<open>validateCheck\<close> returns exactly the candidates for which \<open>validateMove\<close> answers 1 on the
  board right after the move, in the order of the candidate list, and leaves the board as
  it was.
\<close>

theorem validateCheck_filters:
  assumes inverse: "\<forall>m\<in>set moves. RevertMove (ApplyMove board m turn) m turn = board"
    and king: "\<forall>m\<in>set moves.
        Colors (ApplyMove board m turn) turn AND Pieces (ApplyMove board m turn) KING \<noteq> 0"
    and room: "length moves \<le> 256"
  shows "validateCheck defs ApplyMove RevertMove board moves turn =
           Inr (filter (\<lambda>m. validateMove defs (ApplyMove board m turn) turn = Inr 1) moves,
                board)"
  using inverse king
    validateCheckLoop_filter [where A = ApplyMove and R = RevertMove and board = board
      and moves = moves and turn = turn and defs = defs and fixed = "[]"]
  by (simp add: validateCheck_def)

lemma xor_twice: "((a :: 64 word) XOR m) XOR m = a"
  by (auto simp: bit_eq_iff bit_simps)

lemma sampleApply_inverse: "sampleApply (sampleApply board m turn) m turn = board"
proof (cases "Start m")
  case None
  then show ?thesis by (simp add: sampleApply_def)
next
  case s: (Some s)
  show ?thesis
  proof (cases "End m")
    case None
    with s show ?thesis by (simp add: sampleApply_def)
  next
    case e: (Some e)
    show ?thesis
    proof (cases "MovedType m")
      case None
      with s e show ?thesis by (simp add: sampleApply_def)
    next
      case (Some p)
      with s e show ?thesis
        by (simp add: sampleApply_def Let_def xor_twice)
    qed
  qed
qed

lemma knightBoard_king:
  "getKingMoves sampleBoardDefs knightBoard [] WHITE = Inr (take 5 knightBoardCandidates)"
  by code_simp

lemma knightBoard_queen:
  "getQueenMoves knightBoard (take 5 knightBoardCandidates) WHITE = take 5 knightBoardCandidates"
  by code_simp

lemma knightBoard_rook:
  "getRookMoves knightBoard (take 5 knightBoardCandidates) WHITE = take 5 knightBoardCandidates"
  by code_simp

lemma knightBoard_knight:
  "getKnightMoves knightBoard (take 5 knightBoardCandidates) WHITE = take 5 knightBoardCandidates"
  by code_simp

lemma knightBoard_bishop:
  "getBishopMoves knightBoard (take 5 knightBoardCandidates) WHITE = take 5 knightBoardCandidates"
  by code_simp

lemma knightBoard_pawn:
  "getPawnMoves sampleBoardDefs knightBoard (take 5 knightBoardCandidates) WHITE
     = knightBoardCandidates"
  by code_simp

lemmas knightBoard_generated = knightBoard_king knightBoard_queen knightBoard_rook
  knightBoard_knight knightBoard_bishop knightBoard_pawn

lemma knightBoard_kings:
  "\<forall>m\<in>set knightBoardCandidates.
     Colors (sampleApply knightBoard m WHITE) WHITE
       AND Pieces (sampleApply knightBoard m WHITE) KING \<noteq> 0"
  by code_simp

lemma knightBoard_filter:
  "filter (\<lambda>m. validateMove sampleBoardDefs (sampleApply knightBoard m WHITE) WHITE = Inr 1)
     knightBoardCandidates = knightBoardLegal"
  by code_simp

theorem validateCheck_filters_witness:
  "validateCheck sampleBoardDefs sampleApply sampleApply knightBoard knightBoardCandidates WHITE
     = Inr (knightBoardLegal, knightBoard)"
proof -
  have inverse: "\<forall>m\<in>set knightBoardCandidates.
      sampleApply (sampleApply knightBoard m WHITE) m WHITE = knightBoard"
    by (simp add: sampleApply_inverse)
  have room: "length knightBoardCandidates \<le> 256"
    by (simp add: knightBoardCandidates_def)
  show ?thesis
    using inverse knightBoard_kings room
      validateCheck_filters [where ApplyMove = sampleApply and RevertMove = sampleApply and board = knightBoard
        and moves = knightBoardCandidates and turn = WHITE and defs = sampleBoardDefs]
    by (simp add: knightBoard_filter)
qed

lemma knightBoard_all:
  "getAllMoves sampleBoardDefs sampleApply sampleApply knightBoard WHITE
     = Inr (knightBoardLegal, knightBoard)"
proof -
  have "validateCheck sampleBoardDefs sampleApply sampleApply knightBoard knightBoardCandidates
          WHITE = Inr (knightBoardLegal, knightBoard)"
    using validateCheckLoop_filter [where A = sampleApply and R = sampleApply
        and board = knightBoard and moves = knightBoardCandidates and turn = WHITE
        and defs = sampleBoardDefs and fixed = "[]"] knightBoard_kings
    by (simp add: validateCheck_def sampleApply_inverse knightBoard_filter)
  then show ?thesis
    by (simp add: getAllMoves_def knightBoard_generated)
qed

text \<open>
  Claim C8. No move that \<open>getPawnMoves\<close> emits carries one of the four promotion tags, and
  neither does any move that \<open>getAllMoves\<close> returns.
\<close>

theorem no_promotion_moves:
  "(\<exists>new. getPawnMoves defs board moves turn = moves @ new
      \<and> (\<forall>m\<in>set new. \<not> isPromotion (Type m)))
   \<and> (\<forall>fixed board'.
        getAllMoves defs ApplyMove RevertMove board turn = Inr (fixed, board')
        \<longrightarrow> (\<forall>m\<in>set fixed. \<not> isPromotion (Type m)))"
proof (intro conjI allI impI)
  show "\<exists>new. getPawnMoves defs board moves turn = moves @ new
      \<and> (\<forall>m\<in>set new. \<not> isPromotion (Type m))"
    using getPawnMoves_emits [of moves defs board turn]
    by (auto simp: emits_def moveOK_def)
next
  fix fixed board'
  assume all: "getAllMoves defs ApplyMove RevertMove board turn = Inr (fixed, board')"
  then obtain moves1 where king: "getKingMoves defs board [] turn = Inr moves1"
    by (auto simp: getAllMoves_def split: sum.splits)
  define generated where "generated = getPawnMoves defs board (getBishopMoves board
      (getKnightMoves board (getRookMoves board (getQueenMoves board moves1 turn) turn) turn)
      turn) turn"
  have k: "emits moveOK [] moves1"
    using king by (rule getKingMoves_emits)
  have q: "emits moveOK moves1 (getQueenMoves board moves1 turn)"
    by (rule getQueenMoves_emits)
  have r: "emits moveOK (getQueenMoves board moves1 turn)
      (getRookMoves board (getQueenMoves board moves1 turn) turn)"
    by (rule getRookMoves_emits)
  have n: "emits moveOK (getRookMoves board (getQueenMoves board moves1 turn) turn)
      (getKnightMoves board (getRookMoves board (getQueenMoves board moves1 turn) turn) turn)"
    by (rule getKnightMoves_emits)
  have b: "emits moveOK
      (getKnightMoves board (getRookMoves board (getQueenMoves board moves1 turn) turn) turn)
      (getBishopMoves board
        (getKnightMoves board (getRookMoves board (getQueenMoves board moves1 turn) turn) turn)
        turn)"
    by (rule getBishopMoves_emits)
  have p: "emits moveOK
      (getBishopMoves board
        (getKnightMoves board (getRookMoves board (getQueenMoves board moves1 turn) turn) turn)
        turn)
      generated"
    unfolding generated_def by (rule getPawnMoves_emits)
  have "emits moveOK [] generated"
    by (rule emits_trans [OF emits_trans [OF emits_trans [OF emits_trans
          [OF emits_trans [OF k q] r] n] b] p])
  then have gen: "\<forall>m\<in>set generated. \<not> isPromotion (Type m)"
    by (auto simp: emits_def moveOK_def)
  from all king have "validateCheckLoop defs ApplyMove RevertMove board generated turn []
      = Inr (fixed, board')"
    by (simp add: getAllMoves_def Let_def generated_def validateCheck_def)
  then have "set fixed \<subseteq> set generated"
    using validateCheckLoop_subset by fastforce
  with gen show "\<forall>m\<in>set fixed. \<not> isPromotion (Type m)"
    by blast
qed

theorem no_promotion_moves_witness:
  "getPawnMoves sampleBoardDefs knightBoard [] WHITE
     = [pawnMove 8 16 NormalMove, pawnMove 8 24 PawnDoublePushMove]
   \<and> getAllMoves sampleBoardDefs sampleApply sampleApply knightBoard WHITE
     = Inr (knightBoardLegal, knightBoard)
   \<and> list_all (\<lambda>m. \<not> isPromotion (Type m)) knightBoardLegal"
proof -
  have pawns: "getPawnMoves sampleBoardDefs knightBoard [] WHITE
     = [pawnMove 8 16 NormalMove, pawnMove 8 24 PawnDoublePushMove]"
    by code_simp
  from no_promotion_moves [of sampleBoardDefs knightBoard "[]" WHITE sampleApply sampleApply]
  have "\<forall>m\<in>set knightBoardLegal. \<not> isPromotion (Type m)"
    using knightBoard_all by blast
  then show ?thesis
    using pawns knightBoard_all by (simp add: list_all_iff)
qed

lemma emits_differ:
  assumes "emits moveOK moves moves'"
  shows "\<exists>new. moves' = moves @ new
     \<and> (\<forall>m\<in>set new. \<not> isCastle (Type m) \<longrightarrow>
           Start m \<noteq> None \<and> End m \<noteq> None \<and> Start m \<noteq> End m)"
  using assms by (auto simp: emits_def moveOK_def startEndDiffer_def)

lemma getKingMoves_defined:
  assumes "Pieces board KING AND Colors board turn \<noteq> 0"
  shows "\<exists>moves'. getKingMoves defs board moves turn = Inr moves'"
proof -
  obtain bit' where "getLSB (Pieces board KING AND Colors board turn) = Some bit'"
    using getLSB_nonzero [OF assms] by blast
  then show ?thesis
    by (simp add: getKingMoves_def Let_def)
qed

text \<open>
  Claim C9. Every move that one of the six generators emits and that is not a castle
  carries a start and an end square, and they differ. \<open>getKingMoves\<close> is taken where it
  returns, which it does whenever the side has a king.
\<close>

theorem start_differs_from_end:
  "(\<exists>new. getKnightMoves board moves turn = moves @ new
      \<and> (\<forall>m\<in>set new. \<not> isCastle (Type m) \<longrightarrow>
            Start m \<noteq> None \<and> End m \<noteq> None \<and> Start m \<noteq> End m))
   \<and> (\<exists>new. getBishopMoves board moves turn = moves @ new
      \<and> (\<forall>m\<in>set new. \<not> isCastle (Type m) \<longrightarrow>
            Start m \<noteq> None \<and> End m \<noteq> None \<and> Start m \<noteq> End m))
   \<and> (\<exists>new. getRookMoves board moves turn = moves @ new
      \<and> (\<forall>m\<in>set new. \<not> isCastle (Type m) \<longrightarrow>
            Start m \<noteq> None \<and> End m \<noteq> None \<and> Start m \<noteq> End m))
   \<and> (\<exists>new. getQueenMoves board moves turn = moves @ new
      \<and> (\<forall>m\<in>set new. \<not> isCastle (Type m) \<longrightarrow>
            Start m \<noteq> None \<and> End m \<noteq> None \<and> Start m \<noteq> End m))
   \<and> (\<exists>new. getPawnMoves defs board moves turn = moves @ new
      \<and> (\<forall>m\<in>set new. \<not> isCastle (Type m) \<longrightarrow>
            Start m \<noteq> None \<and> End m \<noteq> None \<and> Start m \<noteq> End m))
   \<and> (\<forall>moves'. getKingMoves defs board moves turn = Inr moves' \<longrightarrow>
        (\<exists>new. moves' = moves @ new
          \<and> (\<forall>m\<in>set new. \<not> isCastle (Type m) \<longrightarrow>
                Start m \<noteq> None \<and> End m \<noteq> None \<and> Start m \<noteq> End m)))
   \<and> (Pieces board KING AND Colors board turn \<noteq> 0 \<longrightarrow>
        (\<exists>moves'. getKingMoves defs board moves turn = Inr moves'))"
  using emits_differ [OF getKnightMoves_emits] emits_differ [OF getBishopMoves_emits]
    emits_differ [OF getRookMoves_emits] emits_differ [OF getQueenMoves_emits]
    emits_differ [OF getPawnMoves_emits] emits_differ [OF getKingMoves_emits]
    getKingMoves_defined
  by (intro conjI allI impI) blast+

theorem start_differs_from_end_witness:
  "getKingMoves sampleBoardDefs knightBoard [] WHITE = Inr (take 5 knightBoardCandidates)
   \<and> list_all (\<lambda>m. Start m \<noteq> End m) (take 5 knightBoardCandidates)
   \<and> getPawnMoves sampleBoardDefs knightBoard [] WHITE = drop 5 knightBoardCandidates
   \<and> list_all (\<lambda>m. Start m \<noteq> End m) (drop 5 knightBoardCandidates)
   \<and> map End (getKnightMoves knightBoard [] BLACK)
        = [Some 1, Some 3, Some 8, Some 12, Some 24, Some 28, Some 33, Some 35]
   \<and> list_all (\<lambda>m. Start m \<noteq> End m) (getKnightMoves knightBoard [] BLACK)"
proof -
  have pawns: "getPawnMoves sampleBoardDefs knightBoard [] WHITE = drop 5 knightBoardCandidates"
    by code_simp
  have knights: "map End (getKnightMoves knightBoard [] BLACK)
        = [Some 1, Some 3, Some 8, Some 12, Some 24, Some 28, Some 33, Some 35]"
    and plain_knights: "list_all (\<lambda>m. \<not> isCastle (Type m)) (getKnightMoves knightBoard [] BLACK)"
    by code_simp+
  have plain: "\<forall>m\<in>set knightBoardCandidates. \<not> isCastle (Type m)"
    by (simp add: knightBoardCandidates_def kingMove_def pawnMove_def)
  note all = start_differs_from_end [where board = knightBoard and moves = "[]"
      and defs = sampleBoardDefs]
  from all [where turn = WHITE]
  have "\<forall>m\<in>set (take 5 knightBoardCandidates). \<not> isCastle (Type m) \<longrightarrow> Start m \<noteq> End m"
    and "\<forall>m\<in>set (drop 5 knightBoardCandidates). \<not> isCastle (Type m) \<longrightarrow> Start m \<noteq> End m"
    using knightBoard_king pawns by auto
  moreover have "\<forall>m\<in>set (take 5 knightBoardCandidates). \<not> isCastle (Type m)"
    and "\<forall>m\<in>set (drop 5 knightBoardCandidates). \<not> isCastle (Type m)"
    using plain by (auto dest: in_set_takeD in_set_dropD)
  moreover from all [where turn = BLACK]
  have "\<forall>m\<in>set (getKnightMoves knightBoard [] BLACK). \<not> isCastle (Type m) \<longrightarrow> Start m \<noteq> End m"
    by auto
  ultimately show ?thesis
    using knightBoard_king pawns knights plain_knights by (simp add: list_all_iff)
qed

lemma getKingMoves_never_castles:
  assumes "LeftCastleBoards defs turn \<noteq> 0" and "RightCastleBoards defs turn \<noteq> 0"
    and "getKingMoves defs board moves turn = Inr moves'"
  shows "\<exists>new. moves' = moves @ new \<and> (\<forall>m\<in>set new. \<not> isCastle (Type m))"
proof (cases "Pieces board KING AND (if Colors board turn = 0 then 1 else 0) \<noteq> 0")
  case True
  with assms(3) have "moves' = moves"
    by (simp add: getKingMoves_def Let_def)
  then show ?thesis by simp
next
  case False
  with assms(3) obtain bit' where lsb: "getLSB (Pieces board KING AND Colors board turn) = Some bit'"
    by (auto simp: getKingMoves_def Let_def split: option.splits)
  define ty where "ty =
     (if ValidCastles board turn 0 \<noteq> 0 then
        (if ValidCastles board turn 1 \<noteq> 0 then BreaksBothCastlesMove else BreaksLeftCastleMove)
      else if ValidCastles board turn 1 \<noteq> 0 then BreaksRightCastleMove
      else NormalMove)"
  define moves1 where "moves1 = forEachBit (\<lambda>lsb moves. moves @
       [\<lparr>Start = Some (int bit'), End = Some (int lsb),
         CapturedType = Some (getSquare lsb board), MovedType = Some KING, Type = ty\<rparr>])
       (KingMap board bit' AND NOT (Colors board turn)) moves"
  have ty: "\<not> isCastle ty"
    by (simp add: ty_def)
  have "emits (\<lambda>m. \<not> isCastle (Type m)) moves moves1"
    unfolding moves1_def by (rule forEachBit_emits) (simp add: ty)
  moreover have "getKingMoves defs board moves turn = Inr moves1"
    using False lsb assms(1,2)
    by (auto simp: getKingMoves_def Let_def moves1_def ty_def)
  ultimately show ?thesis
    using assms(3) by (simp add: emits_def)
qed

text \<open>
  Claim C2, on \<open>castleBoard\<close>: White has not castled, holds both rights, and no piece
  stands on the castle squares of either side. \<open>getKingMoves\<close> emits the five king moves and
  no castle move: its test is \<open>occupied & (LeftCastleBoards[turn] == 0)\<close>, which is 0 for
  every nonzero castle bitboard.
\<close>

theorem getKingMoves_emits_no_castle:
  "Castled castleBoard WHITE = 0
   \<and> ValidCastles castleBoard WHITE 0 = 1
   \<and> ValidCastles castleBoard WHITE 1 = 1
   \<and> (Colors castleBoard WHITE OR Colors castleBoard BLACK)
        AND LeftCastleBoards sampleBoardDefs WHITE = 0
   \<and> (Colors castleBoard WHITE OR Colors castleBoard BLACK)
        AND RightCastleBoards sampleBoardDefs WHITE = 0
   \<and> getKingMoves sampleBoardDefs castleBoard [] WHITE =
        Inr [kingMove 4 3 BreaksBothCastlesMove, kingMove 4 5 BreaksBothCastlesMove,
             kingMove 4 11 BreaksBothCastlesMove, kingMove 4 12 BreaksBothCastlesMove,
             kingMove 4 13 BreaksBothCastlesMove]"
  by code_simp

text \<open>
  Claim C7, on \<open>kinglessBoard\<close>: White has no king. The guard of \<open>getKingMoves\<close> is
  \<open>Pieces[KING] & (friendly == 0)\<close>, which is 0 as soon as the side has any piece, so the
  function does not return there and calls \<open>getLSB\<close> on the empty king bitboard.
\<close>

theorem getKingMoves_guard_passes_without_king:
  "Pieces kinglessBoard KING AND Colors kinglessBoard WHITE = 0
   \<and> Pieces kinglessBoard KING AND (if Colors kinglessBoard WHITE = 0 then 1 else 0) = 0
   \<and> getKingMoves sampleBoardDefs kinglessBoard [] WHITE = Inl EmptyBitboard"
  by code_simp

end
